theory Spec2Isabelle
  imports Main "HOL-Library.AList" "HOL-Library.Char_ord" "HOL-Library.List_Lexorder"
    "HOL-Library.Multiset"
begin

section \<open>Strings and character classes\<close>

text \<open>
  Python \<^verbatim>\<open>str\<close> values are modelled as \<^typ>\<open>string\<close>: the code points 0..255.
  On this range the classes of the \<^verbatim>\<open>re\<close> module (for \<^verbatim>\<open>str\<close> patterns) and of
  \<^verbatim>\<open>str.strip\<close>/\<^verbatim>\<open>str.split\<close> are the following.
\<close>

definition code_in :: "nat \<Rightarrow> nat \<Rightarrow> char \<Rightarrow> bool" where
  "code_in lo hi c = (lo \<le> (of_char c :: nat) \<and> (of_char c :: nat) \<le> hi)"

text \<open>\<^verbatim>\<open>\s\<close> and \<^verbatim>\<open>str.isspace\<close>: TAB, LF, VT, FF, CR, FS, GS, RS, US, space, NEL, NBSP.\<close>

definition is_space :: "char \<Rightarrow> bool" where
  "is_space c = (code_in 9 13 c \<or> code_in 28 32 c \<or> code_in 133 133 c \<or> code_in 160 160 c)"

text \<open>\<^verbatim>\<open>\d\<close>: the decimal digits.\<close>

definition is_digit :: "char \<Rightarrow> bool" where
  "is_digit c = code_in 48 57 c"

text \<open>\<^verbatim>\<open>[A-Z]\<close> and \<^verbatim>\<open>[a-z]\<close>.\<close>

definition is_upper :: "char \<Rightarrow> bool" where
  "is_upper c = code_in 65 90 c"

definition is_lower :: "char \<Rightarrow> bool" where
  "is_lower c = code_in 97 122 c"

text \<open>\<^verbatim>\<open>\w\<close>: the alphanumeric characters (\<^verbatim>\<open>str.isalnum\<close>) and the underscore.\<close>

definition is_word :: "char \<Rightarrow> bool" where
  "is_word c = (is_digit c \<or> is_upper c \<or> is_lower c \<or> code_in 95 95 c
     \<or> code_in 170 170 c \<or> code_in 178 179 c \<or> code_in 181 181 c \<or> code_in 185 186 c
     \<or> code_in 188 190 c \<or> code_in 192 214 c \<or> code_in 216 246 c \<or> code_in 248 255 c)"

text \<open>\<^verbatim>\<open>.\<close> (without DOTALL): anything but a line feed.\<close>

definition is_dot :: "char \<Rightarrow> bool" where
  "is_dot c = (c \<noteq> CHR 0x0A)"

definition one_of :: "string \<Rightarrow> char \<Rightarrow> bool" where
  "one_of cs c = (c \<in> set cs)"

text \<open>\<^verbatim>\<open>s.strip()\<close>\<close>

definition strip :: "string \<Rightarrow> string" where
  "strip s = rev (dropWhile is_space (rev (dropWhile is_space s)))"

text \<open>\<^verbatim>\<open>s.split()\<close>: the maximal runs of non-whitespace characters.\<close>

fun split_ws :: "string \<Rightarrow> string \<Rightarrow> string list" where
  "split_ws w [] = (if w = [] then [] else [rev w])"
| "split_ws w (c # cs) =
     (if is_space c then (if w = [] then split_ws [] cs else rev w # split_ws [] cs)
      else split_ws (c # w) cs)"

text \<open>\<^verbatim>\<open>sep.join(parts)\<close>\<close>

fun join :: "string \<Rightarrow> string list \<Rightarrow> string" where
  "join sep [] = []"
| "join sep [p] = p"
| "join sep (p # q # ps) = p @ sep @ join sep (q # ps)"

text \<open>\<^verbatim>\<open>s.startswith(w)\<close> and \<^verbatim>\<open>w in s\<close>\<close>

definition startswith :: "string \<Rightarrow> string \<Rightarrow> bool" where
  "startswith s w = (take (length w) s = w)"

fun contains :: "string \<Rightarrow> string \<Rightarrow> bool" where
  "contains [] w = (w = [])"
| "contains (c # cs) w = (startswith (c # cs) w \<or> contains cs w)"

section \<open>The regular expressions of the \<^verbatim>\<open>re\<close> module that the extractor uses\<close>

text \<open>
  A backtracking matcher in the order Python's engine explores: every quantifier of the
  extractor's patterns ranges over a single character class, so repetition is over a class.
  A matcher state is the text consumed so far (reversed), the text that remains and the
  captured groups in the order in which they close.
\<close>

datatype rx =
    Lit string
  | Cls "char \<Rightarrow> bool"
  | Rep "char \<Rightarrow> bool" nat "nat option"
  | RepLazy "char \<Rightarrow> bool" nat "nat option"
  | Seq rx rx
  | Alt rx rx
  | Opt rx
  | Grp rx
  | Look rx
  | Bol
  | Eol
  | Wordb

type_synonym mstate = "string \<times> string \<times> string list"

text \<open>How many characters of a class a quantifier can take at most.\<close>

definition run_max :: "(char \<Rightarrow> bool) \<Rightarrow> nat option \<Rightarrow> string \<Rightarrow> nat" where
  "run_max P hi r =
     (let n = length (takeWhile P r) in case hi of None \<Rightarrow> n | Some h \<Rightarrow> min h n)"

definition advance :: "mstate \<Rightarrow> nat \<Rightarrow> mstate" where
  "advance st k = (case st of (p, r, g) \<Rightarrow> (rev (take k r) @ p, drop k r, g))"

definition at_boundary :: "string \<Rightarrow> string \<Rightarrow> bool" where
  "at_boundary p r =
     ((case p of [] \<Rightarrow> False | c # _ \<Rightarrow> is_word c) \<noteq> (case r of [] \<Rightarrow> False | c # _ \<Rightarrow> is_word c))"

text \<open>
  All the ways a pattern matches from a state, in the order of preference of a backtracking
  engine (greedy quantifiers the longest first, lazy ones the shortest first). \<^verbatim>\<open>$\<close>
  matches at the end and before a final line feed.
\<close>

fun rx_run :: "rx \<Rightarrow> mstate \<Rightarrow> mstate list" where
  "rx_run (Lit w) st =
     (case st of (p, r, g) \<Rightarrow> if take (length w) r = w then [advance st (length w)] else [])"
| "rx_run (Cls P) st =
     (case st of (p, r, g) \<Rightarrow>
        (case r of [] \<Rightarrow> [] | c # _ \<Rightarrow> if P c then [advance st 1] else []))"
| "rx_run (Rep P lo hi) st =
     (case st of (p, r, g) \<Rightarrow> map (advance st) (rev [lo ..< Suc (run_max P hi r)]))"
| "rx_run (RepLazy P lo hi) st =
     (case st of (p, r, g) \<Rightarrow> map (advance st) [lo ..< Suc (run_max P hi r)])"
| "rx_run (Seq a b) st = concat (map (rx_run b) (rx_run a st))"
| "rx_run (Alt a b) st = rx_run a st @ rx_run b st"
| "rx_run (Opt a) st = rx_run a st @ [st]"
| "rx_run (Grp a) st =
     (case st of (p, r, g) \<Rightarrow>
        map (\<lambda>(p', r', g'). (p', r', g' @ [rev (take (length p' - length p) p')])) (rx_run a st))"
| "rx_run (Look a) st = (if rx_run a st = [] then [] else [st])"
| "rx_run Bol st = (case st of (p, r, g) \<Rightarrow> if p = [] then [st] else [])"
| "rx_run Eol st = (case st of (p, r, g) \<Rightarrow> if r = [] \<or> r = [CHR 0x0A] then [st] else [])"
| "rx_run Wordb st = (case st of (p, r, g) \<Rightarrow> if at_boundary p r then [st] else [])"

fun seqs :: "rx list \<Rightarrow> rx" where
  "seqs [] = Lit []"
| "seqs [a] = a"
| "seqs (a # b # rs) = Seq a (seqs (b # rs))"

abbreviation star :: "(char \<Rightarrow> bool) \<Rightarrow> rx" where
  "star P \<equiv> Rep P 0 None"

abbreviation plus_rx :: "(char \<Rightarrow> bool) \<Rightarrow> rx" where
  "plus_rx P \<equiv> Rep P 1 None"

text \<open>\<^verbatim>\<open>re.match(pattern, s)\<close>: the preferred match at the start of \<open>s\<close>, as its groups.\<close>

definition re_match :: "rx \<Rightarrow> string \<Rightarrow> string list option" where
  "re_match a s = (case rx_run a ([], s, []) of [] \<Rightarrow> None | (p, r, g) # _ \<Rightarrow> Some g)"

text \<open>\<^verbatim>\<open>re.search(pattern, s)\<close>: the preferred match at the leftmost position that has one.\<close>

fun rx_scan :: "rx \<Rightarrow> string \<Rightarrow> string \<Rightarrow> mstate option" where
  "rx_scan a p [] = (case rx_run a (p, [], []) of [] \<Rightarrow> None | st # _ \<Rightarrow> Some st)"
| "rx_scan a p (c # cs) =
     (case rx_run a (p, c # cs, []) of [] \<Rightarrow> rx_scan a (c # p) cs | st # _ \<Rightarrow> Some st)"

definition re_search :: "rx \<Rightarrow> string \<Rightarrow> string list option" where
  "re_search a s = (case rx_scan a [] s of None \<Rightarrow> None | Some (p, r, g) \<Rightarrow> Some g)"

text \<open>
  \<^verbatim>\<open>re.sub(pattern, '', s)\<close>: every match, left to right and without overlap, is deleted. An
  empty match deletes nothing and the scan moves on by one character.
\<close>

function re_sub_del :: "rx \<Rightarrow> string \<Rightarrow> string \<Rightarrow> string" where
  "re_sub_del a p r =
     (case rx_run a (p, r, []) of
        (p1, r1, g1) # _ \<Rightarrow>
          if length r1 < length r then re_sub_del a p1 r1
          else (case r of [] \<Rightarrow> [] | c # cs \<Rightarrow> c # re_sub_del a (c # p) cs)
      | [] \<Rightarrow> (case r of [] \<Rightarrow> [] | c # cs \<Rightarrow> c # re_sub_del a (c # p) cs))"
  by pat_completeness auto
termination
  by (relation "measure (\<lambda>(a, p, r). length r)") auto

text \<open>
  \<^verbatim>\<open>re.finditer(pattern, s)\<close>: the groups of every match, left to right and without overlap.
\<close>

function re_finditer :: "rx \<Rightarrow> string \<Rightarrow> string \<Rightarrow> string list list" where
  "re_finditer a p r =
     (case rx_run a (p, r, []) of
        (p1, r1, g1) # _ \<Rightarrow>
          if length r1 < length r then g1 # re_finditer a p1 r1
          else g1 # (case r of [] \<Rightarrow> [] | c # cs \<Rightarrow> re_finditer a (c # p) cs)
      | [] \<Rightarrow> (case r of [] \<Rightarrow> [] | c # cs \<Rightarrow> re_finditer a (c # p) cs))"
  by pat_completeness auto
termination
  by (relation "measure (\<lambda>(a, p, r). length r)") auto

section \<open>The description normalizer\<close>

text \<open>\<^verbatim>\<open>r'\s+[MC]\s+[MCN](\s+.*)?$'\<close>\<close>

definition status_rx :: rx where
  "status_rx = seqs [plus_rx is_space, Cls (one_of ''MC''), plus_rx is_space, Cls (one_of ''MCN''),
     Opt (Grp (Seq (plus_rx is_space) (star is_dot))), Eol]"

text \<open>\<^verbatim>\<open>r'\s+NOT\s+USED$'\<close>\<close>

definition not_used_rx :: rx where
  "not_used_rx = seqs [plus_rx is_space, Lit ''NOT'', plus_rx is_space, Lit ''USED'', Eol]"

text \<open>
  \<^verbatim>\<open>clean_description\<close>. Its argument is a string or \<^verbatim>\<open>None\<close>: \<^verbatim>\<open>not description\<close> holds
  of \<^verbatim>\<open>None\<close> and of the empty string.
\<close>

definition clean_description :: "string option \<Rightarrow> string" where
  "clean_description description =
     (case description of
        None \<Rightarrow> []
      | Some d \<Rightarrow>
          if d = [] then []
          else strip (re_sub_del not_used_rx [] (re_sub_del status_rx [] d)))"

section \<open>The data model\<close>

text \<open>
  The extractor builds dictionaries that it shares by reference: the dictionary of a group
  is appended to its segment and kept in \<^verbatim>\<open>current_group\<close>, through which its
  \<^verbatim>\<open>champs\<close> list grows afterwards. Elements and groups therefore live in two stores, where
  the address of an object is its index, and lists hold addresses.
\<close>

record element =
  champ :: string
  champ_description :: string
  format :: string
  valeur :: string
  usage :: string

record group_obj =
  groupe :: string
  groupe_description :: string
  champs :: "nat list"

datatype item = ChampRef nat | GroupeRef nat

record segment_obj =
  segment :: string
  description :: string
  elements :: "item list"

datatype fmt = Faurecia | Vda4932

text \<open>
  \<^verbatim>\<open>self\<close>: \<^verbatim>\<open>segments_dict\<close> is a Python dictionary, its entries in insertion order, with
  the two stores beside it.
\<close>

record extractor =
  segments_dict :: "(string \<times> segment_obj) list"
  element_heap :: "element list"
  group_heap :: "group_obj list"
  pdf_format :: "fmt option"

definition init_extractor :: extractor where
  "init_extractor = \<lparr>segments_dict = [], element_heap = [], group_heap = [], pdf_format = None\<rparr>"

text \<open>What the PDF library hands over: cells are strings or \<^verbatim>\<open>None\<close>.\<close>

type_synonym cell = "string option"
type_synonym row = "cell list"
type_synonym table = "row list"

record page =
  extract_text :: "string option"
  extract_tables :: "table list"

datatype py_error = KeyError | IndexError

text \<open>\<^verbatim>\<open>xs[i]\<close> for \<open>i \<ge> 0\<close>\<close>

definition py_index :: "'a list \<Rightarrow> nat \<Rightarrow> py_error + 'a" where
  "py_index xs i = (if i < length xs then Inr (xs ! i) else Inl IndexError)"

text \<open>\<^verbatim>\<open>d[k]\<close>\<close>

definition py_getitem :: "('k \<times> 'v) list \<Rightarrow> 'k \<Rightarrow> py_error + 'v" where
  "py_getitem d k = (case map_of d k of None \<Rightarrow> Inl KeyError | Some v \<Rightarrow> Inr v)"

text \<open>\<^verbatim>\<open>str(cell).strip() if cell else ''\<close>\<close>

definition clean_cell :: "cell \<Rightarrow> string" where
  "clean_cell c = (case c of None \<Rightarrow> [] | Some s \<Rightarrow> if s = [] then [] else strip s)"

text \<open>\<^verbatim>\<open>row_clean[i] if len(row_clean) > i else ''\<close>\<close>

definition cell_at :: "string list \<Rightarrow> nat \<Rightarrow> string" where
  "cell_at row_clean i = (if length row_clean > i then row_clean ! i else [])"

text \<open>\<^verbatim>\<open>match.group(n)\<close> for \<open>n \<ge> 1\<close>, of a group that took part in the match.\<close>

definition group_of :: "string list \<Rightarrow> nat \<Rightarrow> string" where
  "group_of g n = (if 0 < n \<and> n \<le> length g then g ! (n - 1) else [])"

text \<open>\<^verbatim>\<open>r'^\d{4}$'\<close> and \<^verbatim>\<open>r'^[SC]\d{3}$'\<close>\<close>

definition element_code_rx :: rx where
  "element_code_rx = seqs [Bol, Rep is_digit 4 (Some 4), Eol]"

definition group_code_rx :: rx where
  "group_code_rx = seqs [Bol, Cls (one_of ''SC''), Rep is_digit 3 (Some 3), Eol]"

definition is_element_code :: "string \<Rightarrow> bool" where
  "is_element_code code = (re_match element_code_rx code \<noteq> None)"

definition is_group_code :: "string \<Rightarrow> bool" where
  "is_group_code code = (re_match group_code_rx code \<noteq> None)"

text \<open>The object allocations and the appends through references.\<close>

definition new_element :: "element \<Rightarrow> extractor \<Rightarrow> nat \<times> extractor" where
  "new_element e ex = (length (element_heap ex), ex\<lparr>element_heap := element_heap ex @ [e]\<rparr>)"

definition new_group :: "group_obj \<Rightarrow> extractor \<Rightarrow> nat \<times> extractor" where
  "new_group gr ex = (length (group_heap ex), ex\<lparr>group_heap := group_heap ex @ [gr]\<rparr>)"

text \<open>\<^verbatim>\<open>current_group["champs"].append(element)\<close>\<close>

definition group_append :: "nat \<Rightarrow> nat \<Rightarrow> extractor \<Rightarrow> extractor" where
  "group_append a e ex =
     ex\<lparr>group_heap := (group_heap ex)[a := (group_heap ex ! a)\<lparr>champs := champs (group_heap ex ! a) @ [e]\<rparr>]\<rparr>"

text \<open>\<^verbatim>\<open>self.segments_dict[key]["elements"].append(x)\<close>\<close>

definition segment_append :: "string \<Rightarrow> item \<Rightarrow> extractor \<Rightarrow> py_error + extractor" where
  "segment_append key x ex =
     (case py_getitem (segments_dict ex) key of
        Inl err \<Rightarrow> Inl err
      | Inr s \<Rightarrow> Inr (ex\<lparr>segments_dict :=
          AList.update key (s\<lparr>elements := elements s @ [x]\<rparr>) (segments_dict ex)\<rparr>))"

text \<open>
  \<^verbatim>\<open>if key not in self.segments_dict: self.segments_dict[key] = {...}\<close>
\<close>

definition add_segment :: "string \<Rightarrow> string \<Rightarrow> extractor \<Rightarrow> extractor" where
  "add_segment key desc ex =
     (if key \<in> set (map fst (segments_dict ex)) then ex
      else ex\<lparr>segments_dict := AList.update key
             \<lparr>segment = key, description = desc, elements = []\<rparr> (segments_dict ex)\<rparr>)"

section \<open>The Faurecia table parser\<close>

text \<open>\<^verbatim>\<open>r'Segment:\s*([A-Z]{3})'\<close>\<close>

definition segment_header_rx :: rx where
  "segment_header_rx = seqs [Lit ''Segment:'', star is_space, Grp (Rep is_upper 3 (Some 3))]"

text \<open>\<^verbatim>\<open>r'Pos\.:\s*\d+.*?([A-Z][\w\s/]+)$'\<close>\<close>

definition segment_desc_rx :: rx where
  "segment_desc_rx = seqs [Lit ''Pos.:'', star is_space, plus_rx is_digit, RepLazy is_dot 0 None,
     Grp (Seq (Cls is_upper) (plus_rx (\<lambda>c. is_word c \<or> is_space c \<or> c = CHR ''/''))), Eol]"

text \<open>\<^verbatim>\<open>r'^[A-Z0-9]+\s*='\<close>\<close>

definition faurecia_usage_rx :: rx where
  "faurecia_usage_rx = seqs [Bol, plus_rx (\<lambda>c. is_upper c \<or> is_digit c), star is_space, Lit ''='']"

text \<open>
  The look-ahead of the usage consolidation, over the rows after the current one
  (\<^verbatim>\<open>table[next_idx]\<close> for \<^verbatim>\<open>next_idx = row_idx + 1, ...\<close>): the usage texts to append.
\<close>

fun faurecia_lookahead :: "row list \<Rightarrow> py_error + string list" where
  "faurecia_lookahead [] = Inr []"
| "faurecia_lookahead (next_row # rows) =
     (if next_row = [] \<or> length next_row < 8 then Inr []
      else let next_row_clean = map clean_cell next_row in
        case py_index next_row_clean 0 of
          Inl err \<Rightarrow> Inl err
        | Inr next_code \<Rightarrow>
            let next_usage = cell_at next_row_clean 7 in
            if next_code \<noteq> [] \<and> (is_element_code next_code \<or> is_group_code next_code) then Inr []
            else if next_usage \<noteq> [] \<and> re_match faurecia_usage_rx (strip next_usage) \<noteq> None then
              (case faurecia_lookahead rows of
                 Inl err \<Rightarrow> Inl err
               | Inr parts \<Rightarrow> Inr (strip next_usage # parts))
            else Inr [])"

definition faurecia_usage :: "string \<Rightarrow> row list \<Rightarrow> py_error + string" where
  "faurecia_usage usage_desc rows =
     (if usage_desc \<noteq> [] then
        (case faurecia_lookahead rows of
           Inl err \<Rightarrow> Inl err
         | Inr parts \<Rightarrow> Inr (join [CHR 0x0A] (strip usage_desc # parts)))
      else Inr [])"

text \<open>
  The loop state of \<^verbatim>\<open>_parse_faurecia_table\<close>: \<^verbatim>\<open>current_segment\<close>, \<^verbatim>\<open>current_group\<close> (the
  address of the group) and \<^verbatim>\<open>self\<close>.
\<close>

type_synonym fstate = "string option \<times> nat option \<times> extractor"

text \<open>One turn of the loop, for a row and the rows after it.\<close>

definition faurecia_row :: "row \<Rightarrow> row list \<Rightarrow> fstate \<Rightarrow> py_error + fstate" where
  "faurecia_row row rows st =
     (case st of (current_segment, current_group, ex) \<Rightarrow>
      if row = [] then Inr st
      else let row_clean = map clean_cell row; row_text = join '' '' row_clean in
        case re_search segment_header_rx row_text of
          Some segment_match \<Rightarrow>
            let seg = group_of segment_match 1;
                desc = (case re_search segment_desc_rx row_text of
                          Some desc_match \<Rightarrow> strip (group_of desc_match 1) | None \<Rightarrow> [])
            in Inr (Some seg, None, add_segment seg (clean_description (Some desc)) ex)
        | None \<Rightarrow>
            (case current_segment of
               None \<Rightarrow> Inr st
             | Some seg \<Rightarrow>
                 if seg = [] then Inr st
                 else let code = cell_at row_clean 0;
                          desc = clean_description (Some (cell_at row_clean 1));
                          format_str = cell_at row_clean 4;
                          valeur0 = cell_at row_clean 6;
                          usage_desc = cell_at row_clean 7;
                          format_clean = (if format_str \<noteq> [] then join '' '' (split_ws [] format_str) else []);
                          valeur_clean = (if valeur0 \<noteq> [] then strip valeur0 else [])
                   in case faurecia_usage usage_desc rows of
                        Inl err \<Rightarrow> Inl err
                      | Inr usage_clean \<Rightarrow>
                          if is_group_code code then
                            (case new_group \<lparr>groupe = code, groupe_description = desc, champs = []\<rparr> ex of
                               (a, ex1) \<Rightarrow>
                                 (case segment_append seg (GroupeRef a) ex1 of
                                    Inl err \<Rightarrow> Inl err
                                  | Inr ex2 \<Rightarrow> Inr (current_segment, Some a, ex2)))
                          else if is_element_code code then
                            (case new_element \<lparr>champ = code, champ_description = desc,
                                     format = format_clean, valeur = valeur_clean, usage = usage_clean\<rparr> ex of
                               (e, ex1) \<Rightarrow>
                                 (case current_group of
                                    Some a \<Rightarrow> Inr (current_segment, current_group, group_append a e ex1)
                                  | None \<Rightarrow>
                                      (case segment_append seg (ChampRef e) ex1 of
                                         Inl err \<Rightarrow> Inl err
                                       | Inr ex2 \<Rightarrow> Inr (current_segment, current_group, ex2))))
                          else Inr st))"

fun faurecia_rows :: "row list \<Rightarrow> fstate \<Rightarrow> py_error + fstate" where
  "faurecia_rows [] st = Inr st"
| "faurecia_rows (row # rows) st =
     (case faurecia_row row rows st of Inl err \<Rightarrow> Inl err | Inr st' \<Rightarrow> faurecia_rows rows st')"

text \<open>\<^verbatim>\<open>_parse_faurecia_table\<close>\<close>

definition parse_faurecia_table :: "table \<Rightarrow> extractor \<Rightarrow> py_error + extractor" where
  "parse_faurecia_table t ex =
     (case faurecia_rows t (None, None, ex) of
        Inl err \<Rightarrow> Inl err
      | Inr (current_segment, current_group, ex') \<Rightarrow> Inr ex')"

section \<open>The VDA 4932 table parser\<close>

text \<open>\<^verbatim>\<open>r'^([SC]?\d{3,4})\s+(.+)$'\<close>\<close>

definition vda_code_rx :: rx where
  "vda_code_rx = seqs [Bol, Grp (Seq (Opt (Cls (one_of ''SC''))) (Rep is_digit 3 (Some 4))),
     plus_rx is_space, Grp (plus_rx is_dot), Eol]"

text \<open>\<^verbatim>\<open>r"^['\"]?[A-Z0-9]+['\"]?\s*="\<close> and \<^verbatim>\<open>r'^[A-Z][a-z]+\s+[A-Z]'\<close>\<close>

definition vda_usage_rx :: rx where
  "vda_usage_rx = seqs [Bol, Opt (Cls (one_of [CHR 0x27, CHR 0x22])),
     plus_rx (\<lambda>c. is_upper c \<or> is_digit c), Opt (Cls (one_of [CHR 0x27, CHR 0x22])),
     star is_space, Lit ''='']"

definition vda_phrase_rx :: rx where
  "vda_phrase_rx = seqs [Bol, Cls is_upper, plus_rx is_lower, plus_rx is_space, Cls is_upper]"

fun vda_lookahead :: "row list \<Rightarrow> py_error + string list" where
  "vda_lookahead [] = Inr []"
| "vda_lookahead (next_row # rows) =
     (if next_row = [] \<or> length next_row < 4 then Inr []
      else let next_row_clean = map clean_cell next_row in
        case py_index next_row_clean 0 of
          Inl err \<Rightarrow> Inl err
        | Inr next_code \<Rightarrow>
            let next_usage = cell_at next_row_clean 3 in
            if next_code \<noteq> [] \<and> (is_element_code next_code \<or> is_group_code next_code) then Inr []
            else if next_usage \<noteq> [] \<and> (re_match vda_usage_rx (strip next_usage) \<noteq> None
                      \<or> re_match vda_phrase_rx (strip next_usage) \<noteq> None) then
              (case vda_lookahead rows of
                 Inl err \<Rightarrow> Inl err
               | Inr parts \<Rightarrow> Inr (strip next_usage # parts))
            else Inr [])"

definition vda_usage :: "string \<Rightarrow> row list \<Rightarrow> py_error + string" where
  "vda_usage col3 rows =
     (if col3 \<noteq> [] \<and> strip col3 \<noteq> ''--'' then
        (case vda_lookahead rows of
           Inl err \<Rightarrow> Inl err
         | Inr parts \<Rightarrow> Inr (join [CHR 0x0A] (strip col3 # parts)))
      else Inr [])"

text \<open>
  \<^verbatim>\<open>last_segment["elements"].append(x)\<close>, where \<^verbatim>\<open>last_segment\<close> is the value at a position
  of the dictionary.
\<close>

definition entry_append :: "nat \<Rightarrow> item \<Rightarrow> extractor \<Rightarrow> extractor" where
  "entry_append i x ex =
     ex\<lparr>segments_dict := (segments_dict ex)[i :=
          (case segments_dict ex ! i of (k, s) \<Rightarrow> (k, s\<lparr>elements := elements s @ [x]\<rparr>))]\<rparr>"

text \<open>
  One turn of the loop of \<^verbatim>\<open>_parse_vda_table\<close>; the loop state is \<^verbatim>\<open>current_group\<close> and
  \<^verbatim>\<open>self\<close>, and \<open>last_segment\<close> is the position of the segment the table belongs to.
\<close>

type_synonym vstate = "nat option \<times> extractor"

definition vda_row :: "nat \<Rightarrow> row \<Rightarrow> row list \<Rightarrow> vstate \<Rightarrow> py_error + vstate" where
  "vda_row last_segment row rows st =
     (case st of (current_group, ex) \<Rightarrow>
      if row = [] \<or> length row < 2 then Inr st
      else let row_clean = map clean_cell row;
               col0 = (if row_clean \<noteq> [] then row_clean ! 0 else []);
               col1 = cell_at row_clean 1;
               col2 = cell_at row_clean 2;
               col3 = cell_at row_clean 3
        in if col0 = [] \<or> startswith col0 ''S.Format'' \<or> contains col0 ''Segment can/must'' then Inr st
           else case re_match vda_code_rx col0 of
                  None \<Rightarrow> Inr st
                | Some code_match \<Rightarrow>
                    let code = group_of code_match 1;
                        desc = clean_description (Some (strip (group_of code_match 2)));
                        format_str = strip col1;
                        valeur0 = strip col2
                    in case vda_usage col3 rows of
                         Inl err \<Rightarrow> Inl err
                       | Inr usage_clean \<Rightarrow>
                           if is_group_code code then
                             (case new_group \<lparr>groupe = code, groupe_description = desc, champs = []\<rparr> ex of
                                (a, ex1) \<Rightarrow> Inr (Some a, entry_append last_segment (GroupeRef a) ex1))
                           else if is_element_code code then
                             (case new_element \<lparr>champ = code, champ_description = desc,
                                      format = format_str, valeur = valeur0, usage = usage_clean\<rparr> ex of
                                (e, ex1) \<Rightarrow>
                                  (case current_group of
                                     Some a \<Rightarrow> Inr (current_group, group_append a e ex1)
                                   | None \<Rightarrow> Inr (current_group, entry_append last_segment (ChampRef e) ex1)))
                           else Inr st)"

fun vda_rows :: "nat \<Rightarrow> row list \<Rightarrow> vstate \<Rightarrow> py_error + vstate" where
  "vda_rows last_segment [] st = Inr st"
| "vda_rows last_segment (row # rows) st =
     (case vda_row last_segment row rows st of
        Inl err \<Rightarrow> Inl err
      | Inr st' \<Rightarrow> vda_rows last_segment rows st')"

text \<open>\<^verbatim>\<open>xs[-1]\<close>, as the position it reads.\<close>

definition py_last_index :: "'a list \<Rightarrow> py_error + nat" where
  "py_last_index xs = (if xs = [] then Inl IndexError else Inr (length xs - 1))"

text \<open>\<^verbatim>\<open>_parse_vda_table\<close>\<close>

definition parse_vda_table :: "table \<Rightarrow> extractor \<Rightarrow> py_error + extractor" where
  "parse_vda_table t ex =
     (if segments_dict ex = [] then Inr ex
      else case py_last_index (segments_dict ex) of
             Inl err \<Rightarrow> Inl err
           | Inr last_segment \<Rightarrow>
               (case vda_rows last_segment t (None, ex) of
                  Inl err \<Rightarrow> Inl err
                | Inr (current_group, ex') \<Rightarrow> Inr ex'))"

section \<open>The two extraction loops\<close>

text \<open>A loop whose body can raise: the first error ends it.\<close>

fun for_each :: "('a \<Rightarrow> 's \<Rightarrow> py_error + 's) \<Rightarrow> 'a list \<Rightarrow> 's \<Rightarrow> py_error + 's" where
  "for_each body [] s = Inr s"
| "for_each body (x # xs) s =
     (case body x s of Inl err \<Rightarrow> Inl err | Inr s' \<Rightarrow> for_each body xs s')"

text \<open>\<^verbatim>\<open>extract_faurecia_format\<close>\<close>

definition faurecia_table_step :: "table \<Rightarrow> extractor \<Rightarrow> py_error + extractor" where
  "faurecia_table_step t ex = (if t = [] \<or> length t < 5 then Inr ex else parse_faurecia_table t ex)"

definition extract_faurecia_format :: "page list \<Rightarrow> extractor \<Rightarrow> py_error + extractor" where
  "extract_faurecia_format pages ex =
     for_each (\<lambda>pg. for_each faurecia_table_step (extract_tables pg)) pages ex"

text \<open>
  \<^verbatim>\<open>r'Segment:\s+([A-Z]{3})\s+Cons\.\s*No\.:\s*(\d+)\s+Level:\s*(\d+)\s+(.*?)(?=\n|$)'\<close>
\<close>

definition vda_segment_rx :: rx where
  "vda_segment_rx = seqs [Lit ''Segment:'', plus_rx is_space, Grp (Rep is_upper 3 (Some 3)),
     plus_rx is_space, Lit ''Cons.'', star is_space, Lit ''No.:'', star is_space,
     Grp (plus_rx is_digit), plus_rx is_space, Lit ''Level:'', star is_space,
     Grp (plus_rx is_digit), plus_rx is_space, Grp (RepLazy is_dot 0 None),
     Look (Alt (Lit [CHR 0x0A]) Eol)]"

text \<open>\<^verbatim>\<open>extract_vda4932_format\<close>\<close>

definition vda_table_step :: "table \<Rightarrow> extractor \<Rightarrow> py_error + extractor" where
  "vda_table_step t ex = (if t = [] \<or> length t < 3 then Inr ex else parse_vda_table t ex)"

definition vda_page :: "page \<Rightarrow> extractor \<Rightarrow> py_error + extractor" where
  "vda_page pg ex =
     (case extract_text pg of
        None \<Rightarrow> Inr ex
      | Some text \<Rightarrow>
          if text = [] then Inr ex
          else let ex1 = fold (\<lambda>m. add_segment (group_of m 1) (strip (group_of m 4)))
                           (re_finditer vda_segment_rx [] text) ex
               in for_each vda_table_step (extract_tables pg) ex1)"

definition extract_vda4932_format :: "page list \<Rightarrow> extractor \<Rightarrow> py_error + extractor" where
  "extract_vda4932_format pages ex = for_each vda_page pages ex"

section \<open>Format detection\<close>

text \<open>
  \<^verbatim>\<open>r'Segment:\s+[A-Z]{3}\s+Cons\.\s*No\.:'\<close>, \<^verbatim>\<open>r'Segment:.*Pos\.:\s*\d+.*Level:'\<close>,
  \<^verbatim>\<open>r'Segment:\s+Pos\.:\s*\d+\s+Level:'\<close> and \<^verbatim>\<open>r'\b(UNH|BGM|DTM|NAD|LIN|MOA)\b'\<close>
\<close>

definition vda_marker_rx :: rx where
  "vda_marker_rx = seqs [Lit ''Segment:'', plus_rx is_space, Rep is_upper 3 (Some 3),
     plus_rx is_space, Lit ''Cons.'', star is_space, Lit ''No.:'']"

definition faurecia_line_rx :: rx where
  "faurecia_line_rx = seqs [Lit ''Segment:'', star is_dot, Lit ''Pos.:'', star is_space,
     plus_rx is_digit, star is_dot, Lit ''Level:'']"

definition faurecia_split_rx :: rx where
  "faurecia_split_rx = seqs [Lit ''Segment:'', plus_rx is_space, Lit ''Pos.:'', star is_space,
     plus_rx is_digit, plus_rx is_space, Lit ''Level:'']"

definition mnemonic_rx :: rx where
  "mnemonic_rx = seqs [Wordb,
     Grp (Alt (Lit ''UNH'') (Alt (Lit ''BGM'') (Alt (Lit ''DTM'') (Alt (Lit ''NAD'')
       (Alt (Lit ''LIN'') (Lit ''MOA'')))))), Wordb]"

text \<open>The four tests of one page, in the order of the source.\<close>

definition vda_rule :: "string \<Rightarrow> bool" where
  "vda_rule text = (re_search vda_marker_rx text \<noteq> None)"

definition faurecia_rule :: "string \<Rightarrow> bool" where
  "faurecia_rule text =
     (re_search faurecia_line_rx text \<noteq> None \<or> re_search faurecia_split_rx text \<noteq> None
      \<or> (contains text ''Pos.:'' \<and> re_search mnemonic_rx text \<noteq> None))"

text \<open>\<^verbatim>\<open>page.extract_text() if page.extract_text() else ""\<close>\<close>

definition page_text :: "page \<Rightarrow> string" where
  "page_text pg = (case extract_text pg of None \<Rightarrow> [] | Some t \<Rightarrow> t)"

fun detect_pages :: "page list \<Rightarrow> fmt" where
  "detect_pages [] = Faurecia"
| "detect_pages (pg # pgs) =
     (if vda_rule (page_text pg) then Vda4932
      else if faurecia_rule (page_text pg) then Faurecia
      else detect_pages pgs)"

text \<open>\<^verbatim>\<open>detect_pdf_format\<close>\<close>

definition detect_pdf_format :: "page list \<Rightarrow> fmt" where
  "detect_pdf_format pages = detect_pages (take 10 pages)"

section \<open>The enricher, the facade and the output\<close>

definition standard_descriptions :: "(string \<times> string) list" where
  "standard_descriptions =
     [(''UNB'', ''Interchange header''), (''UNH'', ''Message header''),
      (''BGM'', ''Beginning of message''), (''DTM'', ''Date/time/period''),
      (''RFF'', ''Reference''), (''NAD'', ''Name and address''),
      (''CTA'', ''Contact information''), (''COM'', ''Communication contact''),
      (''TAX'', ''Duty/tax/fee details''), (''CUX'', ''Currencies''),
      (''PAT'', ''Payment terms basis''), (''PCD'', ''Percentage details''),
      (''MOA'', ''Monetary amount''), (''LIN'', ''Line item''),
      (''PIA'', ''Additional product id''), (''IMD'', ''Item description''),
      (''QTY'', ''Quantity''), (''ALI'', ''Additional information''),
      (''GIN'', ''Goods identity number''), (''GIR'', ''Related identification numbers''),
      (''QVR'', ''Quantity variances''), (''DOC'', ''Document/message details''),
      (''PRI'', ''Price details''), (''APR'', ''Additional price information''),
      (''RNG'', ''Range details''), (''LOC'', ''Place/location identification''),
      (''TOD'', ''Terms of delivery or transport''), (''PAC'', ''Package''),
      (''PCI'', ''Package identification''), (''ALC'', ''Allowance or charge''),
      (''RCS'', ''Requirements and conditions''), (''UNS'', ''Section control''),
      (''CNT'', ''Control total''), (''UNT'', ''Message trailer''),
      (''UNZ'', ''Interchange trailer''), (''FTX'', ''Free text''),
      (''FII'', ''Financial institution information''), (''MEA'', ''Measurements''),
      (''PAI'', ''Payment instructions'')]"

text \<open>The body of the loop of \<^verbatim>\<open>add_standard_descriptions\<close>, for one entry of the dictionary.\<close>

definition enrich_segment :: "string \<Rightarrow> segment_obj \<Rightarrow> segment_obj" where
  "enrich_segment segment_code segment_data =
     (let s1 = (if description segment_data \<noteq> []
                then segment_data\<lparr>description := clean_description (Some (description segment_data))\<rparr>
                else segment_data)
      in if description s1 = [] \<or> description s1 \<in> set [''0'', ''1'', []]
         then (case map_of standard_descriptions segment_code of
                 Some d \<Rightarrow> s1\<lparr>description := d\<rparr>
               | None \<Rightarrow> s1)
         else s1)"

definition add_standard_descriptions :: "extractor \<Rightarrow> extractor" where
  "add_standard_descriptions ex =
     ex\<lparr>segments_dict := map (\<lambda>(k, s). (k, enrich_segment k s)) (segments_dict ex)\<rparr>"

text \<open>
  \<^verbatim>\<open>extract_all\<close>: the value it returns, \<^verbatim>\<open>list(self.segments_dict.values())\<close>, and the
  extractor it leaves. The statistics it prints in between read the dictionary only.
\<close>

definition extract_all :: "page list \<Rightarrow> extractor \<Rightarrow> py_error + segment_obj list \<times> extractor" where
  "extract_all pages ex =
     (let f = detect_pdf_format pages; ex0 = ex\<lparr>pdf_format := Some f\<rparr> in
      case (if f = Vda4932 then extract_vda4932_format pages ex0
            else extract_faurecia_format pages ex0) of
        Inl err \<Rightarrow> Inl err
      | Inr ex1 \<Rightarrow>
          (let ex2 = add_standard_descriptions ex1 in Inr (map snd (segments_dict ex2), ex2)))"

text \<open>What \<^verbatim>\<open>json.dump\<close> writes for a segment: the objects behind the references.\<close>

datatype json_item = JChamp element | JGroupe string string "element list"

record json_segment =
  j_segment :: string
  j_description :: string
  j_elements :: "json_item list"

definition dump_item :: "extractor \<Rightarrow> item \<Rightarrow> json_item" where
  "dump_item ex x =
     (case x of
        ChampRef e \<Rightarrow> JChamp (element_heap ex ! e)
      | GroupeRef a \<Rightarrow>
          JGroupe (groupe (group_heap ex ! a)) (groupe_description (group_heap ex ! a))
            (map (\<lambda>e. element_heap ex ! e) (champs (group_heap ex ! a))))"

definition dump_segment :: "extractor \<Rightarrow> segment_obj \<Rightarrow> json_segment" where
  "dump_segment ex s =
     \<lparr>j_segment = segment s, j_description = description s,
      j_elements = map (dump_item ex) (elements s)\<rparr>"

text \<open>\<^verbatim>\<open>[self.segments_dict[key] for key in keys]\<close>\<close>

fun lookup_all :: "('k \<times> 'v) list \<Rightarrow> 'k list \<Rightarrow> py_error + 'v list" where
  "lookup_all d [] = Inr []"
| "lookup_all d (k # ks) =
     (case py_getitem d k of
        Inl err \<Rightarrow> Inl err
      | Inr v \<Rightarrow> (case lookup_all d ks of Inl err \<Rightarrow> Inl err | Inr vs \<Rightarrow> Inr (v # vs)))"

text \<open>\<^verbatim>\<open>save_to_json\<close>: the array written to the output file.\<close>

definition save_to_json :: "extractor \<Rightarrow> py_error + json_segment list" where
  "save_to_json ex =
     (case lookup_all (segments_dict ex) (sort (map fst (segments_dict ex))) of
        Inl err \<Rightarrow> Inl err
      | Inr segments_list \<Rightarrow> Inr (map (dump_segment ex) segments_list))"

text \<open>
  \<^verbatim>\<open>process_pdf\<close>, on the pages of the PDF: the array written, or \<open>None\<close> when no file is
  written.
\<close>

definition process_pdf :: "page list \<Rightarrow> py_error + json_segment list option" where
  "process_pdf pages =
     (case extract_all pages init_extractor of
        Inl err \<Rightarrow> Inl err
      | Inr (segments, extractor) \<Rightarrow>
          if segments \<noteq> [] then
            (case save_to_json extractor of Inl err \<Rightarrow> Inl err | Inr out \<Rightarrow> Inr (Some out))
          else Inr None)"

section \<open>Predicates of the properties\<close>

text \<open>The addresses a list of a segment holds, by kind.\<close>

fun champ_refs :: "item list \<Rightarrow> nat list" where
  "champ_refs [] = []"
| "champ_refs (ChampRef e # xs) = e # champ_refs xs"
| "champ_refs (GroupeRef a # xs) = champ_refs xs"

fun groupe_refs :: "item list \<Rightarrow> nat list" where
  "groupe_refs [] = []"
| "groupe_refs (ChampRef e # xs) = groupe_refs xs"
| "groupe_refs (GroupeRef a # xs) = a # groupe_refs xs"

text \<open>
  Every reference to an element, in the segments and in the groups, and every reference to
  a group, with repetitions.
\<close>

definition elem_refs :: "extractor \<Rightarrow> nat list" where
  "elem_refs ex =
     concat (map (\<lambda>ks. champ_refs (elements (snd ks))) (segments_dict ex))
     @ concat (map champs (group_heap ex))"

definition group_refs :: "extractor \<Rightarrow> nat list" where
  "group_refs ex = concat (map (\<lambda>ks. groupe_refs (elements (snd ks))) (segments_dict ex))"

text \<open>
  A strict tree: every element object has exactly one parent list and every group object
  exactly one parent segment.
\<close>

definition tree_ok :: "extractor \<Rightarrow> bool" where
  "tree_ok ex =
     (mset (elem_refs ex) = mset [0 ..< length (element_heap ex)]
      \<and> mset (group_refs ex) = mset [0 ..< length (group_heap ex)])"

text \<open>\<^verbatim>\<open>current_group\<close> refers to a group object.\<close>

definition group_ok :: "nat option \<Rightarrow> extractor \<Rightarrow> bool" where
  "group_ok current_group ex =
     (case current_group of None \<Rightarrow> True | Some a \<Rightarrow> a < length (group_heap ex))"

text \<open>The groups allocated between two states have no children yet.\<close>

definition new_groups_empty :: "extractor \<Rightarrow> extractor \<Rightarrow> bool" where
  "new_groups_empty ex ex' =
     (list_all (\<lambda>gr. champs gr = []) (drop (length (group_heap ex)) (group_heap ex')))"

text \<open>A dictionary: no key twice, and each segment under its own mnemonic.\<close>

definition dict_ok :: "extractor \<Rightarrow> bool" where
  "dict_ok ex =
     (distinct (map fst (segments_dict ex))
      \<and> list_all (\<lambda>ks. segment (snd ks) = fst ks) (segments_dict ex))"

text \<open>
  Rows that no pattern of a parser recognizes: for the Faurecia parser, no segment header and
  a code cell that is neither a group code nor an element code; for the VDA parser, a first
  cell that is not a code with a description, or whose code is neither.
\<close>

definition faurecia_unrecognized :: "row \<Rightarrow> bool" where
  "faurecia_unrecognized row =
     (let row_clean = map clean_cell row in
      re_search segment_header_rx (join '' '' row_clean) = None
      \<and> \<not> is_group_code (cell_at row_clean 0) \<and> \<not> is_element_code (cell_at row_clean 0))"

definition vda_unrecognized :: "row \<Rightarrow> bool" where
  "vda_unrecognized row =
     (case re_match vda_code_rx (cell_at (map clean_cell row) 0) of
        None \<Rightarrow> True
      | Some code_match \<Rightarrow>
          \<not> is_group_code (group_of code_match 1) \<and> \<not> is_element_code (group_of code_match 1))"

section \<open>Loops that may raise\<close>

declare re_sub_del.simps [simp del] re_finditer.simps [simp del]

lemma for_each_map_body:
  "(\<And>x s. x \<in> set xs \<Longrightarrow> f x s = g (h x) s) \<Longrightarrow> for_each f xs s = for_each g (map h xs) s"
  by (induction xs arbitrary: s) (auto split: sum.splits)

lemma for_each_invariant:
  assumes "\<And>x s s'. P s \<Longrightarrow> body x s = Inr s' \<Longrightarrow> P s'"
  shows "P s \<Longrightarrow> for_each body xs s = Inr s' \<Longrightarrow> P s'"
proof (induction xs arbitrary: s)
  case Nil
  then show ?case by simp
next
  case (Cons x xs)
  from Cons.prems(2) obtain s1 where s1: "body x s = Inr s1" "for_each body xs s1 = Inr s'"
    by (auto split: sum.splits)
  from assms [OF Cons.prems(1) s1(1)] have "P s1" .
  from Cons.IH [OF this s1(2)] show ?case .
qed

lemma fold_invariant:
  assumes "\<And>x s. P s \<Longrightarrow> P (f x s)"
  shows "P s \<Longrightarrow> P (fold f xs s)"
  by (induction xs arbitrary: s) (simp_all add: assms)

section \<open>The look-ahead never raises\<close>

lemma py_index_0: "xs \<noteq> [] \<Longrightarrow> py_index xs 0 = Inr (xs ! 0)"
  by (simp add: py_index_def)

lemma faurecia_lookahead_ok: "\<exists>parts. faurecia_lookahead rows = Inr parts"
proof (induction rows)
  case Nil
  then show ?case by simp
next
  case (Cons next_row rows)
  then obtain parts where "faurecia_lookahead rows = Inr parts" by blast
  then show ?case by (simp add: py_index_0 Let_def)
qed

lemma vda_lookahead_ok: "\<exists>parts. vda_lookahead rows = Inr parts"
proof (induction rows)
  case Nil
  then show ?case by simp
next
  case (Cons next_row rows)
  then obtain parts where "vda_lookahead rows = Inr parts" by blast
  then show ?case by (simp add: py_index_0 Let_def)
qed

lemma faurecia_usage_ok: "\<exists>u. faurecia_usage usage_desc rows = Inr u"
  using faurecia_lookahead_ok [of rows] by (auto simp: faurecia_usage_def)

lemma vda_usage_ok: "\<exists>u. vda_usage col3 rows = Inr u"
  using vda_lookahead_ok [of rows] by (auto simp: vda_usage_def)

section \<open>What one row does\<close>

text \<open>
  A row of a Faurecia table is skipped, opens a segment, or allocates a group or an element
  and appends it.
\<close>

lemma faurecia_row_cases:
  obtains
    (skip) "faurecia_row row rows (cs, cg, ex) = Inr (cs, cg, ex)"
  | (header) seg desc where
      "faurecia_row row rows (cs, cg, ex) = Inr (Some seg, None, add_segment seg desc ex)"
  | (group) seg gr where "cs = Some seg" "champs gr = []"
      "faurecia_row row rows (cs, cg, ex) =
         (case segment_append seg (GroupeRef (length (group_heap ex)))
                 (ex\<lparr>group_heap := group_heap ex @ [gr]\<rparr>) of
            Inl err \<Rightarrow> Inl err
          | Inr ex2 \<Rightarrow> Inr (Some seg, Some (length (group_heap ex)), ex2))"
  | (nested) a e where "cg = Some a"
      "faurecia_row row rows (cs, cg, ex) =
         Inr (cs, cg, group_append a (length (element_heap ex))
                        (ex\<lparr>element_heap := element_heap ex @ [e]\<rparr>))"
  | (direct) seg e where "cs = Some seg" "cg = None"
      "faurecia_row row rows (cs, cg, ex) =
         (case segment_append seg (ChampRef (length (element_heap ex)))
                 (ex\<lparr>element_heap := element_heap ex @ [e]\<rparr>) of
            Inl err \<Rightarrow> Inl err
          | Inr ex2 \<Rightarrow> Inr (Some seg, None, ex2))"
proof -
  obtain u where u: "faurecia_usage (cell_at (map clean_cell row) 7) rows = Inr u"
    using faurecia_usage_ok by blast
  show ?thesis
  proof (cases "row = []")
    case True
    then show ?thesis by (intro skip) (simp add: faurecia_row_def)
  next
    case row: False
    show ?thesis
    proof (cases "re_search segment_header_rx (join '' '' (map clean_cell row))")
      case (Some m)
      with row show ?thesis by (intro header) (simp add: faurecia_row_def Let_def)
    next
      case None
      show ?thesis
      proof (cases cs)
        case cs: None
        with row \<open>re_search segment_header_rx (join '' '' (map clean_cell row)) = None\<close>
        show ?thesis by (intro skip) (simp add: faurecia_row_def Let_def)
      next
        case (Some seg)
        note hd = \<open>re_search segment_header_rx (join '' '' (map clean_cell row)) = None\<close>
        show ?thesis
        proof (cases "seg = []")
          case True
          with row hd Some show ?thesis by (intro skip) (simp add: faurecia_row_def Let_def)
        next
          case seg: False
          show ?thesis
          proof (cases "is_group_code (cell_at (map clean_cell row) 0)")
            case True
            with row hd Some seg u show ?thesis
              by (intro group [of seg "\<lparr>groupe = cell_at (map clean_cell row) 0,
                    groupe_description = clean_description (Some (cell_at (map clean_cell row) 1)),
                    champs = []\<rparr>"])
                 (simp_all add: faurecia_row_def Let_def new_group_def)
          next
            case ng: False
            show ?thesis
            proof (cases "is_element_code (cell_at (map clean_cell row) 0)")
              case False
              with row hd Some seg u ng show ?thesis
                by (intro skip) (simp add: faurecia_row_def Let_def)
            next
              case True
              show ?thesis
              proof (cases cg)
                case None
                with row hd Some seg u ng True show ?thesis
                  by (intro direct [of seg]) (simp_all add: faurecia_row_def Let_def new_element_def)
              next
                case (Some a)
                with row hd \<open>cs = Some seg\<close> seg u ng True show ?thesis
                  by (intro nested [of a]) (simp_all add: faurecia_row_def Let_def new_element_def)
              qed
            qed
          qed
        qed
      qed
    qed
  qed
qed

text \<open>A row of a VDA table is skipped, or allocates a group or an element and appends it.\<close>

lemma vda_row_cases:
  obtains
    (skip) "vda_row i row rows (cg, ex) = Inr (cg, ex)"
  | (group) gr where "champs gr = []"
      "vda_row i row rows (cg, ex) =
         Inr (Some (length (group_heap ex)),
              entry_append i (GroupeRef (length (group_heap ex))) (ex\<lparr>group_heap := group_heap ex @ [gr]\<rparr>))"
  | (nested) a e where "cg = Some a"
      "vda_usage (cell_at (map clean_cell row) 3) rows = Inr (usage e)"
      "vda_row i row rows (cg, ex) =
         Inr (cg, group_append a (length (element_heap ex))
                    (ex\<lparr>element_heap := element_heap ex @ [e]\<rparr>))"
  | (direct) e where "cg = None"
      "vda_usage (cell_at (map clean_cell row) 3) rows = Inr (usage e)"
      "vda_row i row rows (cg, ex) =
         Inr (None, entry_append i (ChampRef (length (element_heap ex)))
                      (ex\<lparr>element_heap := element_heap ex @ [e]\<rparr>))"
proof -
  obtain u where u: "vda_usage (cell_at (map clean_cell row) 3) rows = Inr u"
    using vda_usage_ok by blast
  let ?col0 = "if map clean_cell row \<noteq> [] then map clean_cell row ! 0 else []"
  show ?thesis
  proof (cases "row = [] \<or> length row < 2")
    case True
    then show ?thesis by (intro skip) (auto simp: vda_row_def)
  next
    case row: False
    show ?thesis
    proof (cases "?col0 = [] \<or> startswith ?col0 ''S.Format'' \<or> contains ?col0 ''Segment can/must''")
      case True
      with row show ?thesis by (intro skip) (simp add: vda_row_def Let_def)
    next
      case noise: False
      show ?thesis
      proof (cases "re_match vda_code_rx ?col0")
        case None
        with row noise show ?thesis by (intro skip) (simp add: vda_row_def Let_def)
      next
        case (Some m)
        show ?thesis
        proof (cases "is_group_code (group_of m 1)")
          case True
          with row noise Some u show ?thesis
            by (intro group [of "\<lparr>groupe = group_of m 1,
                  groupe_description = clean_description (Some (strip (group_of m 2))),
                  champs = []\<rparr>"])
               (simp_all add: vda_row_def Let_def new_group_def)
        next
          case ng: False
          show ?thesis
          proof (cases "is_element_code (group_of m 1)")
            case False
            with row noise Some u ng show ?thesis
              by (intro skip) (simp add: vda_row_def Let_def)
          next
            case True
            show ?thesis
            proof (cases cg)
              case None
              with row noise Some u ng True show ?thesis
                by (intro direct [of "\<lparr>champ = group_of m 1,
                      champ_description = clean_description (Some (strip (group_of m 2))),
                      format = strip (cell_at (map clean_cell row) 1),
                      valeur = strip (cell_at (map clean_cell row) 2), usage = u\<rparr>"])
                   (simp_all add: vda_row_def Let_def new_element_def)
            next
              case (Some a)
              with row noise \<open>re_match vda_code_rx ?col0 = Some m\<close> u ng True show ?thesis
                by (intro nested [of a "\<lparr>champ = group_of m 1,
                      champ_description = clean_description (Some (strip (group_of m 2))),
                      format = strip (cell_at (map clean_cell row) 1),
                      valeur = strip (cell_at (map clean_cell row) 2), usage = u\<rparr>"])
                   (simp_all add: vda_row_def Let_def new_element_def)
            qed
          qed
        qed
      qed
    qed
  qed
qed

section \<open>The parsers never raise\<close>

lemma vda_row_ok: "\<exists>st'. vda_row i row rows st = Inr st'"
proof -
  obtain cg ex where st: "st = (cg, ex)" by (cases st)
  show ?thesis unfolding st by (rule vda_row_cases [of i row rows cg ex]) simp_all
qed

lemma vda_rows_ok: "\<exists>st'. vda_rows i rows st = Inr st'"
proof (induction rows arbitrary: st)
  case Nil
  then show ?case by simp
next
  case (Cons row rows)
  obtain st1 where "vda_row i row rows st = Inr st1" using vda_row_ok by blast
  with Cons [of st1] show ?case by simp
qed

lemma parse_vda_table_ok: "\<exists>ex'. parse_vda_table t ex = Inr ex'"
proof (cases "segments_dict ex = []")
  case True
  then show ?thesis by (simp add: parse_vda_table_def)
next
  case False
  obtain cg ex' where "vda_rows (length (segments_dict ex) - 1) t (None, ex) = Inr (cg, ex')"
    using vda_rows_ok [of "length (segments_dict ex) - 1" t "(None, ex)"] by auto
  with False show ?thesis by (simp add: parse_vda_table_def py_last_index_def)
qed

text \<open>
  In the Faurecia parser \<^verbatim>\<open>current_segment\<close> is always a key of the dictionary, so the
  subscription \<^verbatim>\<open>self.segments_dict[current_segment]\<close> finds it.
\<close>

lemma add_segment_keys:
  "fst ` set (segments_dict (add_segment k d ex)) = insert k (fst ` set (segments_dict ex))"
  by (auto simp: add_segment_def AList.dom_update)

lemma segment_append_ok:
  assumes "k \<in> fst ` set (segments_dict ex)"
  shows "\<exists>ex'. segment_append k x ex = Inr ex'"
proof -
  from assms obtain s where "map_of (segments_dict ex) k = Some s"
    by (metis domD dom_map_of_conv_image_fst)
  then show ?thesis by (simp add: segment_append_def py_getitem_def)
qed

lemma segment_append_keys:
  assumes "segment_append k x ex = Inr ex'"
  shows "map fst (segments_dict ex') = map fst (segments_dict ex)"
proof -
  from assms obtain s where s: "map_of (segments_dict ex) k = Some s"
    and ex': "ex' = ex\<lparr>segments_dict := AList.update k (s\<lparr>elements := elements s @ [x]\<rparr>) (segments_dict ex)\<rparr>"
    by (auto simp: segment_append_def py_getitem_def split: option.splits)
  from s have "k \<in> set (map fst (segments_dict ex))"
    by (metis domI dom_map_of_conv_image_fst set_map)
  then show ?thesis by (simp add: ex' AList.update_keys)
qed

lemma faurecia_row_ok:
  assumes "\<forall>seg. cs = Some seg \<longrightarrow> seg \<in> fst ` set (segments_dict ex)"
  shows "\<exists>cs' cg' ex'. faurecia_row row rows (cs, cg, ex) = Inr (cs', cg', ex')
           \<and> (\<forall>seg. cs' = Some seg \<longrightarrow> seg \<in> fst ` set (segments_dict ex'))"
proof (cases rule: faurecia_row_cases [of row rows cs cg ex])
  case skip
  with assms show ?thesis by simp
next
  case (header seg desc)
  then show ?thesis by (simp add: add_segment_keys)
next
  case (group seg gr)
  let ?ex1 = "ex\<lparr>group_heap := group_heap ex @ [gr]\<rparr>"
  from assms group(1) have k: "seg \<in> fst ` set (segments_dict ?ex1)" by simp
  then obtain ex2 where a: "segment_append seg (GroupeRef (length (group_heap ex))) ?ex1 = Inr ex2"
    using segment_append_ok by blast
  from segment_append_keys [OF a] k have "seg \<in> fst ` set (segments_dict ex2)"
    by (metis set_map)
  with group a show ?thesis by simp
next
  case (nested a e)
  with assms show ?thesis by (simp add: group_append_def)
next
  case (direct seg e)
  let ?ex1 = "ex\<lparr>element_heap := element_heap ex @ [e]\<rparr>"
  from assms direct(1) have k: "seg \<in> fst ` set (segments_dict ?ex1)" by simp
  then obtain ex2 where a: "segment_append seg (ChampRef (length (element_heap ex))) ?ex1 = Inr ex2"
    using segment_append_ok by blast
  from segment_append_keys [OF a] k have "seg \<in> fst ` set (segments_dict ex2)"
    by (metis set_map)
  with direct a show ?thesis by simp
qed

lemma faurecia_rows_ok:
  assumes "\<forall>seg. cs = Some seg \<longrightarrow> seg \<in> fst ` set (segments_dict ex)"
  shows "\<exists>st'. faurecia_rows rows (cs, cg, ex) = Inr st'"
  using assms
proof (induction rows arbitrary: cs cg ex)
  case Nil
  then show ?case by simp
next
  case (Cons row rows)
  from faurecia_row_ok [OF Cons.prems, of row rows cg]
  obtain cs' cg' ex' where a: "faurecia_row row rows (cs, cg, ex) = Inr (cs', cg', ex')"
    and b: "\<forall>seg. cs' = Some seg \<longrightarrow> seg \<in> fst ` set (segments_dict ex')" by blast
  from Cons.IH [OF b, of cg'] a show ?case by simp
qed

lemma parse_faurecia_table_ok: "\<exists>ex'. parse_faurecia_table t ex = Inr ex'"
proof -
  obtain st' where "faurecia_rows t (None, None, ex) = Inr st'"
    using faurecia_rows_ok [of None ex t None] by auto
  then show ?thesis by (cases st') (auto simp: parse_faurecia_table_def)
qed

lemma for_each_ok:
  assumes "\<And>x s. \<exists>s'. body x s = Inr s'"
  shows "\<exists>s'. for_each body xs s = Inr s'"
proof (induction xs arbitrary: s)
  case Nil
  then show ?case by simp
next
  case (Cons x xs)
  obtain s1 where "body x s = Inr s1" using assms by blast
  with Cons [of s1] show ?case by simp
qed

lemma extract_faurecia_format_ok: "\<exists>ex'. extract_faurecia_format pages ex = Inr ex'"
  unfolding extract_faurecia_format_def
proof (rule for_each_ok)
  fix pg :: page and s
  show "\<exists>s'. for_each faurecia_table_step (extract_tables pg) s = Inr s'"
  proof (rule for_each_ok)
    fix t s
    show "\<exists>s'. faurecia_table_step t s = Inr s'"
      using parse_faurecia_table_ok [of t s] by (simp add: faurecia_table_step_def)
  qed
qed

lemma vda_page_ok: "\<exists>ex'. vda_page pg ex = Inr ex'"
proof -
  have "\<And>s. \<exists>s'. for_each vda_table_step (extract_tables pg) s = Inr s'"
  proof (rule for_each_ok)
    fix t s
    show "\<exists>s'. vda_table_step t s = Inr s'"
      using parse_vda_table_ok [of t s] by (simp add: vda_table_step_def)
  qed
  then show ?thesis by (simp add: vda_page_def Let_def split: option.splits)
qed

lemma extract_vda4932_format_ok: "\<exists>ex'. extract_vda4932_format pages ex = Inr ex'"
  unfolding extract_vda4932_format_def by (rule for_each_ok) (rule vda_page_ok)

lemma extract_all_ok: "\<exists>segs ex'. extract_all pages ex = Inr (segs, ex')"
proof (cases "detect_pdf_format pages = Vda4932")
  case True
  obtain a where "extract_vda4932_format pages (ex\<lparr>pdf_format := Some Vda4932\<rparr>) = Inr a"
    using extract_vda4932_format_ok by blast
  with True show ?thesis by (simp add: extract_all_def Let_def)
next
  case False
  obtain b where
    "extract_faurecia_format pages (ex\<lparr>pdf_format := Some (detect_pdf_format pages)\<rparr>) = Inr b"
    using extract_faurecia_format_ok by blast
  with False show ?thesis by (simp add: extract_all_def Let_def)
qed

section \<open>What the appends do to the stores and to the references\<close>

lemma element_heap_group_append [simp]:
  "element_heap (group_append a e ex) = element_heap ex"
  by (simp add: group_append_def)

lemma element_heap_entry_append [simp]:
  "element_heap (entry_append i x ex) = element_heap ex"
  by (simp add: entry_append_def)

lemma group_heap_entry_append [simp]:
  "group_heap (entry_append i x ex) = group_heap ex"
  by (simp add: entry_append_def)

lemma length_segments_dict_entry_append [simp]:
  "length (segments_dict (entry_append i x ex)) = length (segments_dict ex)"
  by (simp add: entry_append_def)

lemma length_group_heap_group_append [simp]:
  "length (group_heap (group_append a e ex)) = length (group_heap ex)"
  by (simp add: group_append_def)

lemma segments_dict_group_append [simp]:
  "segments_dict (group_append a e ex) = segments_dict ex"
  by (simp add: group_append_def)

lemma add_segment_heaps [simp]:
  "element_heap (add_segment k d ex) = element_heap ex"
  "group_heap (add_segment k d ex) = group_heap ex"
  by (simp_all add: add_segment_def)

lemma champ_refs_append: "champ_refs (xs @ ys) = champ_refs xs @ champ_refs ys"
  by (induction xs rule: champ_refs.induct) simp_all

lemma groupe_refs_append: "groupe_refs (xs @ ys) = groupe_refs xs @ groupe_refs ys"
  by (induction xs rule: groupe_refs.induct) simp_all

lemma mset_concat_map_list_update:
  "i < length xs \<Longrightarrow>
     mset (concat (map f (xs[i := y]))) + mset (f (xs ! i)) = mset (concat (map f xs)) + mset (f y)"
proof (induction xs arbitrary: i)
  case Nil
  then show ?case by simp
next
  case (Cons x xs)
  show ?case
  proof (cases i)
    case 0
    then show ?thesis by simp
  next
    case (Suc j)
    with Cons.prems have "j < length xs" by simp
    from Cons.IH [OF this] Suc show ?thesis by (simp add: add.assoc)
  qed
qed

lemma update_is_list_update:
  "map_of d k = Some s \<Longrightarrow> \<exists>i<length d. d ! i = (k, s) \<and> AList.update k v d = d[i := (k, v)]"
proof (induction d)
  case Nil
  then show ?case by simp
next
  case (Cons p ps)
  show ?case
  proof (cases "fst p = k")
    case True
    with Cons.prems have "p = (k, s)" by (cases p) simp
    then show ?thesis by (intro exI [of _ 0]) simp
  next
    case False
    with Cons.prems have "map_of ps k = Some s" by (cases p) auto
    from Cons.IH [OF this] obtain i where
      i: "i < length ps" "ps ! i = (k, s)" "AList.update k v ps = ps[i := (k, v)]" by blast
    with False show ?thesis by (intro exI [of _ "Suc i"]) simp
  qed
qed

lemma update_new_key: "k \<notin> fst ` set d \<Longrightarrow> AList.update k v d = d @ [(k, v)]"
  by (induction d) auto

text \<open>Appending to the list of the entry at a position adds the references of the item.\<close>

lemma entry_append_refs:
  assumes "i < length (segments_dict ex)"
  shows "mset (elem_refs (entry_append i x ex)) = mset (elem_refs ex) + mset (champ_refs [x])"
    and "mset (group_refs (entry_append i x ex)) = mset (group_refs ex) + mset (groupe_refs [x])"
proof -
  obtain k s where ks: "segments_dict ex ! i = (k, s)" by (cases "segments_dict ex ! i")
  let ?y = "(k, s\<lparr>elements := elements s @ [x]\<rparr>)"
  have d: "segments_dict (entry_append i x ex) = (segments_dict ex)[i := ?y]"
    by (simp add: entry_append_def ks)
  from mset_concat_map_list_update [OF assms, of "\<lambda>ks. champ_refs (elements (snd ks))" ?y]
  show "mset (elem_refs (entry_append i x ex)) = mset (elem_refs ex) + mset (champ_refs [x])"
    by (simp add: elem_refs_def d ks champ_refs_append)
  from mset_concat_map_list_update [OF assms, of "\<lambda>ks. groupe_refs (elements (snd ks))" ?y]
  show "mset (group_refs (entry_append i x ex)) = mset (group_refs ex) + mset (groupe_refs [x])"
    by (simp add: group_refs_def d ks groupe_refs_append)
qed

lemma segment_append_is_entry_append:
  assumes "segment_append k x ex = Inr ex'"
  shows "\<exists>i<length (segments_dict ex). ex' = entry_append i x ex"
proof -
  from assms obtain s where s: "map_of (segments_dict ex) k = Some s"
    and ex': "ex' = ex\<lparr>segments_dict := AList.update k (s\<lparr>elements := elements s @ [x]\<rparr>) (segments_dict ex)\<rparr>"
    by (auto simp: segment_append_def py_getitem_def split: option.splits)
  from update_is_list_update [OF s, of "s\<lparr>elements := elements s @ [x]\<rparr>"]
  obtain i where i: "i < length (segments_dict ex)" "segments_dict ex ! i = (k, s)"
    "AList.update k (s\<lparr>elements := elements s @ [x]\<rparr>) (segments_dict ex)
       = (segments_dict ex)[i := (k, s\<lparr>elements := elements s @ [x]\<rparr>)]" by blast
  then have "ex' = entry_append i x ex" by (simp add: ex' entry_append_def)
  with i(1) show ?thesis by blast
qed

lemma group_append_refs:
  assumes "a < length (group_heap ex)"
  shows "mset (elem_refs (group_append a e ex)) = mset (elem_refs ex) + {#e#}"
    and "group_refs (group_append a e ex) = group_refs ex"
proof -
  let ?g = "(group_heap ex ! a)\<lparr>champs := champs (group_heap ex ! a) @ [e]\<rparr>"
  from mset_concat_map_list_update [OF assms, of champs ?g]
  show "mset (elem_refs (group_append a e ex)) = mset (elem_refs ex) + {#e#}"
    by (simp add: elem_refs_def group_append_def)
  show "group_refs (group_append a e ex) = group_refs ex"
    by (simp add: group_refs_def)
qed

lemma add_segment_refs [simp]:
  "elem_refs (add_segment k d ex) = elem_refs ex"
  "group_refs (add_segment k d ex) = group_refs ex"
  by (simp_all add: add_segment_def elem_refs_def group_refs_def update_new_key)

lemma new_element_refs [simp]:
  "elem_refs (ex\<lparr>element_heap := h\<rparr>) = elem_refs ex"
  "group_refs (ex\<lparr>element_heap := h\<rparr>) = group_refs ex"
  by (simp_all add: elem_refs_def group_refs_def)

lemma new_group_refs [simp]:
  "champs gr = [] \<Longrightarrow> elem_refs (ex\<lparr>group_heap := group_heap ex @ [gr]\<rparr>) = elem_refs ex"
  "group_refs (ex\<lparr>group_heap := h\<rparr>) = group_refs ex"
  by (simp_all add: elem_refs_def group_refs_def)

text \<open>The three appends of a row keep the tree.\<close>

lemma tree_ok_new_group:
  assumes "tree_ok ex" "champs gr = []" "i < length (segments_dict ex)"
  shows "tree_ok (entry_append i (GroupeRef (length (group_heap ex))) (ex\<lparr>group_heap := group_heap ex @ [gr]\<rparr>))"
  using assms entry_append_refs [of i "ex\<lparr>group_heap := group_heap ex @ [gr]\<rparr>" "GroupeRef (length (group_heap ex))"]
  by (simp add: tree_ok_def)

lemma tree_ok_new_direct:
  assumes "tree_ok ex" "i < length (segments_dict ex)"
  shows "tree_ok (entry_append i (ChampRef (length (element_heap ex))) (ex\<lparr>element_heap := element_heap ex @ [e]\<rparr>))"
  using assms entry_append_refs [of i "ex\<lparr>element_heap := element_heap ex @ [e]\<rparr>" "ChampRef (length (element_heap ex))"]
  by (simp add: tree_ok_def)

lemma tree_ok_new_nested:
  assumes "tree_ok ex" "a < length (group_heap ex)"
  shows "tree_ok (group_append a (length (element_heap ex)) (ex\<lparr>element_heap := element_heap ex @ [e]\<rparr>))"
  using assms group_append_refs [of a "ex\<lparr>element_heap := element_heap ex @ [e]\<rparr>" "length (element_heap ex)"]
  by (simp add: tree_ok_def)

lemma tree_ok_add_segment: "tree_ok ex \<Longrightarrow> tree_ok (add_segment k d ex)"
  by (simp add: tree_ok_def)

section \<open>Rows that no pattern recognizes\<close>

lemma faurecia_unrecognized_skip:
  assumes "faurecia_unrecognized row"
  shows "faurecia_row row rows st = Inr st"
proof -
  obtain cs cg ex where st: "st = (cs, cg, ex)" by (cases st)
  obtain u where u: "faurecia_usage (cell_at (map clean_cell row) 7) rows = Inr u"
    using faurecia_usage_ok by blast
  from assms have a: "re_search segment_header_rx (join '' '' (map clean_cell row)) = None"
    "\<not> is_group_code (cell_at (map clean_cell row) 0)"
    "\<not> is_element_code (cell_at (map clean_cell row) 0)"
    by (simp_all add: faurecia_unrecognized_def Let_def)
  show ?thesis
    by (simp add: st faurecia_row_def Let_def a u split: option.split)
qed

lemma cell_at_0: "cell_at xs 0 = (if xs \<noteq> [] then xs ! 0 else [])"
  by (simp add: cell_at_def)

lemma vda_unrecognized_skip:
  assumes "vda_unrecognized row \<or> length row < 2"
  shows "vda_row i row rows st = Inr st"
proof -
  obtain cg ex where st: "st = (cg, ex)" by (cases st)
  obtain u where u: "vda_usage (cell_at (map clean_cell row) 3) rows = Inr u"
    using vda_usage_ok by blast
  show ?thesis
  proof (cases "length row < 2")
    case True
    then show ?thesis by (simp add: st vda_row_def)
  next
    case False
    with assms have "vda_unrecognized row" by simp
    then show ?thesis
      by (auto simp: st vda_row_def Let_def vda_unrecognized_def cell_at_0 u split: option.splits)
  qed
qed

section \<open>The dictionary of segments\<close>

lemma dict_ok_heaps [simp]:
  "dict_ok (ex\<lparr>element_heap := eh\<rparr>) = dict_ok ex"
  "dict_ok (ex\<lparr>group_heap := gh\<rparr>) = dict_ok ex"
  "dict_ok (ex\<lparr>pdf_format := f\<rparr>) = dict_ok ex"
  "dict_ok (group_append a e ex) = dict_ok ex"
  by (simp_all add: dict_ok_def)

lemma dict_ok_add_segment: "dict_ok ex \<Longrightarrow> dict_ok (add_segment k d ex)"
  by (auto simp: dict_ok_def add_segment_def update_new_key)

lemma dict_ok_entry_append:
  assumes "dict_ok ex" "i < length (segments_dict ex)"
  shows "dict_ok (entry_append i x ex)"
proof -
  obtain k s where ks: "segments_dict ex ! i = (k, s)" by (cases "segments_dict ex ! i")
  let ?d = "(segments_dict ex)[i := (k, s\<lparr>elements := elements s @ [x]\<rparr>)]"
  have d: "segments_dict (entry_append i x ex) = ?d" by (simp add: entry_append_def ks)
  have "map fst ?d = (map fst (segments_dict ex))[i := k]" by (simp add: map_update)
  also have "\<dots> = map fst (segments_dict ex)"
    using assms(2) ks by (metis fst_conv list_update_id nth_map)
  finally have keys: "map fst ?d = map fst (segments_dict ex)" .
  from assms(1) have seg: "\<forall>j<length (segments_dict ex). segment (snd (segments_dict ex ! j)) = fst (segments_dict ex ! j)"
    by (simp add: dict_ok_def list_all_length)
  have "\<forall>j<length ?d. segment (snd (?d ! j)) = fst (?d ! j)"
  proof (intro allI impI)
    fix j assume j: "j < length ?d"
    show "segment (snd (?d ! j)) = fst (?d ! j)"
    proof (cases "j = i")
      case True
      with seg assms(2) ks show ?thesis by auto
    next
      case False
      with seg j show ?thesis by simp
    qed
  qed
  with keys assms(1) show ?thesis
    by (simp add: dict_ok_def d list_all_length del: length_list_update)
qed

lemma dict_ok_segment_append:
  assumes "dict_ok ex" "segment_append k x ex = Inr ex'"
  shows "dict_ok ex'"
  using segment_append_is_entry_append [OF assms(2)] dict_ok_entry_append [OF assms(1)] by blast

lemma faurecia_row_dict:
  assumes "dict_ok ex" "faurecia_row row rows (cs, cg, ex) = Inr (cs', cg', ex')"
  shows "dict_ok ex'"
proof (cases rule: faurecia_row_cases [of row rows cs cg ex])
  case skip
  with assms show ?thesis by simp
next
  case (header seg desc)
  with assms show ?thesis by (auto simp: dict_ok_add_segment)
next
  case (group seg gr)
  with assms(2) have "segment_append seg (GroupeRef (length (group_heap ex)))
      (ex\<lparr>group_heap := group_heap ex @ [gr]\<rparr>) = Inr ex'"
    by (auto split: sum.splits)
  from dict_ok_segment_append [OF _ this] assms(1) show ?thesis by simp
next
  case (nested a e)
  with assms show ?thesis by auto
next
  case (direct seg e)
  with assms(2) have "segment_append seg (ChampRef (length (element_heap ex)))
      (ex\<lparr>element_heap := element_heap ex @ [e]\<rparr>) = Inr ex'"
    by (auto split: sum.splits)
  from dict_ok_segment_append [OF _ this] assms(1) show ?thesis by simp
qed

lemma vda_row_dict:
  assumes "dict_ok ex" "i < length (segments_dict ex)" "vda_row i row rows (cg, ex) = Inr (cg', ex')"
  shows "dict_ok ex' \<and> length (segments_dict ex') = length (segments_dict ex)"
proof (cases rule: vda_row_cases [of i row rows cg ex])
  case skip
  with assms show ?thesis by simp
next
  case (group gr)
  with assms(3) have "ex' = entry_append i (GroupeRef (length (group_heap ex)))
      (ex\<lparr>group_heap := group_heap ex @ [gr]\<rparr>)" by simp
  with assms(1,2) show ?thesis by (simp add: dict_ok_entry_append)
next
  case (nested a e)
  with assms show ?thesis by auto
next
  case (direct e)
  with assms(3) have "ex' = entry_append i (ChampRef (length (element_heap ex)))
      (ex\<lparr>element_heap := element_heap ex @ [e]\<rparr>)" by simp
  with assms(1,2) show ?thesis by (simp add: dict_ok_entry_append)
qed

lemma faurecia_rows_dict:
  "dict_ok ex \<Longrightarrow> faurecia_rows rows (cs, cg, ex) = Inr (cs', cg', ex') \<Longrightarrow> dict_ok ex'"
proof (induction rows arbitrary: cs cg ex)
  case Nil
  then show ?case by simp
next
  case (Cons row rows)
  from Cons.prems(2) obtain cs1 cg1 ex1 where
    r: "faurecia_row row rows (cs, cg, ex) = Inr (cs1, cg1, ex1)"
       "faurecia_rows rows (cs1, cg1, ex1) = Inr (cs', cg', ex')"
    by (auto split: sum.splits)
  from faurecia_row_dict [OF Cons.prems(1) r(1)] have "dict_ok ex1" .
  from Cons.IH [OF this r(2)] show ?case .
qed

lemma vda_rows_dict:
  "dict_ok ex \<Longrightarrow> i < length (segments_dict ex) \<Longrightarrow> vda_rows i rows (cg, ex) = Inr (cg', ex')
     \<Longrightarrow> dict_ok ex'"
proof (induction rows arbitrary: cg ex)
  case Nil
  then show ?case by simp
next
  case (Cons row rows)
  from Cons.prems(3) obtain cg1 ex1 where
    r: "vda_row i row rows (cg, ex) = Inr (cg1, ex1)" "vda_rows i rows (cg1, ex1) = Inr (cg', ex')"
    by (auto split: sum.splits)
  from vda_row_dict [OF Cons.prems(1,2) r(1)] Cons.prems(2)
  have "dict_ok ex1" "i < length (segments_dict ex1)" by simp_all
  from Cons.IH [OF this r(2)] show ?case .
qed

lemma parse_faurecia_table_dict:
  assumes "dict_ok ex" "parse_faurecia_table t ex = Inr ex'"
  shows "dict_ok ex'"
proof -
  from assms(2) obtain cs' cg' where "faurecia_rows t (None, None, ex) = Inr (cs', cg', ex')"
    by (auto simp: parse_faurecia_table_def split: sum.splits)
  from faurecia_rows_dict [OF assms(1) this] show ?thesis .
qed

lemma parse_vda_table_dict:
  assumes "dict_ok ex" "parse_vda_table t ex = Inr ex'"
  shows "dict_ok ex'"
proof (cases "segments_dict ex = []")
  case True
  with assms show ?thesis by (simp add: parse_vda_table_def)
next
  case False
  with assms(2) obtain cg' where
    "vda_rows (length (segments_dict ex) - 1) t (None, ex) = Inr (cg', ex')"
    by (auto simp: parse_vda_table_def py_last_index_def split: sum.splits)
  from vda_rows_dict [OF assms(1) _ this] False show ?thesis by simp
qed

lemma segment_enrich_segment [simp]: "segment (enrich_segment k s) = segment s"
  by (simp add: enrich_segment_def Let_def split: option.splits)

lemma dict_ok_add_standard_descriptions [simp]:
  "dict_ok (add_standard_descriptions ex) = dict_ok ex"
  by (simp add: dict_ok_def add_standard_descriptions_def comp_def case_prod_beta list_all_iff)

lemma extract_faurecia_format_dict:
  assumes "dict_ok ex" "extract_faurecia_format pages ex = Inr ex'"
  shows "dict_ok ex'"
proof (rule for_each_invariant [where P = dict_ok, OF _ assms(1) assms(2) [unfolded extract_faurecia_format_def]])
  fix pg :: page and s s'
  assume s: "dict_ok s" "for_each faurecia_table_step (extract_tables pg) s = Inr s'"
  show "dict_ok s'"
  proof (rule for_each_invariant [where P = dict_ok, OF _ s])
    fix t s s'
    assume "dict_ok s" "faurecia_table_step t s = Inr s'"
    then show "dict_ok s'"
      using parse_faurecia_table_dict [of s t s']
      by (auto simp: faurecia_table_step_def split: if_splits)
  qed
qed

lemma vda_page_dict:
  assumes "dict_ok ex" "vda_page pg ex = Inr ex'"
  shows "dict_ok ex'"
proof (cases "extract_text pg")
  case None
  with assms show ?thesis by (simp add: vda_page_def)
next
  case (Some tx)
  show ?thesis
  proof (cases "tx = []")
    case True
    with assms Some show ?thesis by (simp add: vda_page_def)
  next
    case False
    let ?ex1 = "fold (\<lambda>m. add_segment (group_of m 1) (strip (group_of m 4)))
                  (re_finditer vda_segment_rx [] tx) ex"
    have t1: "dict_ok ?ex1"
      by (rule fold_invariant [where P = dict_ok, OF _ assms(1)]) (rule dict_ok_add_segment)
    from assms(2) Some False have f: "for_each vda_table_step (extract_tables pg) ?ex1 = Inr ex'"
      by (simp add: vda_page_def Let_def)
    show ?thesis
    proof (rule for_each_invariant [where P = dict_ok, OF _ t1 f])
      fix t s s'
      assume "dict_ok s" "vda_table_step t s = Inr s'"
      then show "dict_ok s'"
        using parse_vda_table_dict [of s t s']
        by (auto simp: vda_table_step_def split: if_splits)
    qed
  qed
qed

lemma extract_vda4932_format_dict:
  assumes "dict_ok ex" "extract_vda4932_format pages ex = Inr ex'"
  shows "dict_ok ex'"
  by (rule for_each_invariant [where P = dict_ok, OF _ assms(1) assms(2) [unfolded extract_vda4932_format_def]])
     (rule vda_page_dict)

lemma extract_all_dict:
  assumes "dict_ok ex" "extract_all pages ex = Inr (segs, ex')"
  shows "dict_ok ex' \<and> segs = map snd (segments_dict ex')"
proof -
  let ?ex0 = "ex\<lparr>pdf_format := Some (detect_pdf_format pages)\<rparr>"
  from assms(1) have t0: "dict_ok ?ex0" by simp
  from assms(2) obtain ex1 where
    e: "(if detect_pdf_format pages = Vda4932 then extract_vda4932_format pages ?ex0
         else extract_faurecia_format pages ?ex0) = Inr ex1"
    and ex': "ex' = add_standard_descriptions ex1" "segs = map snd (segments_dict ex')"
    by (auto simp: extract_all_def Let_def split: sum.splits)
  from e t0 have "dict_ok ex1"
    using extract_vda4932_format_dict [of ?ex0 pages ex1] extract_faurecia_format_dict [of ?ex0 pages ex1]
    by (auto split: if_splits)
  with ex' show ?thesis by simp
qed

lemma dict_ok_init: "dict_ok init_extractor"
  by (simp add: dict_ok_def init_extractor_def)

text \<open>Reading the dictionary under its own keys finds every one of them.\<close>

lemma lookup_all_keys:
  assumes "dict_ok ex" "set ks \<subseteq> fst ` set (segments_dict ex)"
  shows "\<exists>vs. lookup_all (segments_dict ex) ks = Inr vs \<and> map segment vs = ks"
  using assms(2)
proof (induction ks)
  case Nil
  then show ?case by simp
next
  case (Cons k ks)
  then obtain vs where vs: "lookup_all (segments_dict ex) ks = Inr vs" "map segment vs = ks" by auto
  from Cons.prems obtain s where s: "(k, s) \<in> set (segments_dict ex)" by auto
  with assms(1) have m: "map_of (segments_dict ex) k = Some s" by (simp add: dict_ok_def)
  from s assms(1) have "segment s = k" by (auto simp: dict_ok_def list_all_iff)
  with vs m show ?case by (simp add: py_getitem_def)
qed

lemma save_to_json_sorted:
  assumes "dict_ok ex"
  shows "\<exists>out. save_to_json ex = Inr out \<and> map j_segment out = sort (map fst (segments_dict ex))
           \<and> sorted_wrt (<) (map j_segment out)"
proof -
  let ?ks = "sort (map fst (segments_dict ex))"
  have "set ?ks \<subseteq> fst ` set (segments_dict ex)" by simp
  from lookup_all_keys [OF assms this] obtain vs where
    vs: "lookup_all (segments_dict ex) ?ks = Inr vs" "map segment vs = ?ks" by blast
  have a: "save_to_json ex = Inr (map (dump_segment ex) vs)" by (simp add: save_to_json_def vs(1))
  have b: "map j_segment (map (dump_segment ex) vs) = ?ks"
    using vs(2) by (simp add: dump_segment_def comp_def)
  from assms have "distinct ?ks" by (simp add: dict_ok_def)
  then have "sorted_wrt (<) ?ks" by (simp add: strict_sorted_iff)
  with a b show ?thesis by simp
qed

section \<open>Short tables under the Faurecia convention\<close>

lemma for_each_faurecia_filter:
  "for_each faurecia_table_step (filter (\<lambda>t. 5 \<le> length t) ts) ex = for_each faurecia_table_step ts ex"
  by (induction ts arbitrary: ex) (auto simp: faurecia_table_step_def split: sum.splits)

text \<open>
  Claim C6. Under the Faurecia convention a table with fewer than 5 rows is skipped: its step
  returns the extractor as it was, without an error, and the whole extraction is the
  extraction of the document with every such table removed.
\<close>

theorem faurecia_short_table_skipped:
  "(length t < 5 \<longrightarrow> faurecia_table_step t ex = Inr ex)
   \<and> extract_faurecia_format pages ex =
       extract_faurecia_format
         (map (\<lambda>pg. pg\<lparr>extract_tables := filter (\<lambda>t. 5 \<le> length t) (extract_tables pg)\<rparr>) pages) ex"
proof
  show "length t < 5 \<longrightarrow> faurecia_table_step t ex = Inr ex"
    by (simp add: faurecia_table_step_def)
  show "extract_faurecia_format pages ex =
       extract_faurecia_format
         (map (\<lambda>pg. pg\<lparr>extract_tables := filter (\<lambda>t. 5 \<le> length t) (extract_tables pg)\<rparr>) pages) ex"
    unfolding extract_faurecia_format_def
    by (rule for_each_map_body) (simp add: for_each_faurecia_filter)
qed

text \<open>
  A table of four rows that the table parser itself would read a segment and an element
  from: the step leaves the extractor untouched.
\<close>

theorem faurecia_short_table_skipped_witness:
  "length [[Some ''Segment: NAD Pos.: 010 Name and address''],
           [Some ''3035'', Some ''Party qualifier''], [], []] < (5::nat)
   \<and> faurecia_table_step [[Some ''Segment: NAD Pos.: 010 Name and address''],
           [Some ''3035'', Some ''Party qualifier''], [], []] init_extractor = Inr init_extractor
   \<and> parse_faurecia_table [[Some ''Segment: NAD Pos.: 010 Name and address''],
           [Some ''3035'', Some ''Party qualifier''], [], []] init_extractor \<noteq> Inr init_extractor"
proof -
  have a: "length [[Some ''Segment: NAD Pos.: 010 Name and address''],
           [Some ''3035'', Some ''Party qualifier''], [], []] < (5::nat)" by simp
  have b: "parse_faurecia_table [[Some ''Segment: NAD Pos.: 010 Name and address''],
           [Some ''3035'', Some ''Party qualifier''], [], []] init_extractor \<noteq> Inr init_extractor"
    by code_simp
  from a b faurecia_short_table_skipped [of "[[Some ''Segment: NAD Pos.: 010 Name and address''],
           [Some ''3035'', Some ''Party qualifier''], [], []]" init_extractor "[]"]
  show ?thesis by blast
qed

section \<open>The description normalizer: fixed points\<close>

lemma dropWhile_same_length: "length (dropWhile P xs) = length xs \<Longrightarrow> dropWhile P xs = xs"
proof (induction xs)
  case Nil then show ?case by simp
next
  case (Cons x xs)
  have "length (dropWhile P xs) \<le> length xs" by (rule length_dropWhile_le)
  with Cons.prems show ?case by (auto split: if_splits)
qed

lemma strip_length: "length (strip s) \<le> length s"
proof -
  have "length (strip s) \<le> length (dropWhile is_space s)"
    unfolding strip_def using length_dropWhile_le [of is_space "rev (dropWhile is_space s)"] by simp
  also have "\<dots> \<le> length s" by (rule length_dropWhile_le)
  finally show ?thesis .
qed

lemma strip_Nil: "strip [] = []"
  by (simp add: strip_def)

lemma strip_strip: "strip (strip s) = strip s"
proof -
  define t where "t = dropWhile is_space s"
  define u where "u = dropWhile is_space (rev t)"
  have s: "strip s = rev u" by (simp add: strip_def t_def u_def)
  have "dropWhile is_space (rev u) = rev u"
  proof (cases "u = []")
    case True then show ?thesis by simp
  next
    case False
    obtain v where v: "rev t = v @ u" unfolding u_def
      by (metis takeWhile_dropWhile_id)
    then have t: "t = rev u @ rev v" by (metis rev_append rev_rev_ident)
    from False have "rev u \<noteq> []" by simp
    then have "hd (rev u) = hd t" using t by simp
    moreover have "t \<noteq> []" using t False by simp
    then have "\<not> is_space (hd t)" unfolding t_def by (rule hd_dropWhile)
    ultimately show ?thesis using \<open>rev u \<noteq> []\<close>
      by (cases "rev u") auto
  qed
  moreover have "dropWhile is_space u = u" unfolding u_def by simp
  ultimately show ?thesis unfolding s by (simp add: strip_def)
qed

lemma re_sub_del_Nil: "re_sub_del a p [] = []"
  by (subst re_sub_del.simps) (simp split: list.splits prod.splits)

text \<open>One turn of the scan: a match is deleted, or a character is kept.\<close>

lemma re_sub_del_cases:
  "r = [] \<or> (\<exists>p1 r1. length r1 < length r \<and> re_sub_del a p r = re_sub_del a p1 r1)
     \<or> (\<exists>c cs. r = c # cs \<and> re_sub_del a p r = c # re_sub_del a (c # p) cs)"
proof (cases r)
  case Nil
  then show ?thesis by simp
next
  case r: (Cons c cs)
  show ?thesis
  proof (cases "rx_run a (p, c # cs, [])")
    case Nil
    then have "re_sub_del a p (c # cs) = c # re_sub_del a (c # p) cs"
      by (subst re_sub_del.simps) simp
    with r show ?thesis by simp
  next
    case (Cons st sts)
    obtain p1 r1 g1 where st: "st = (p1, r1, g1)" by (cases st)
    from Cons st have run: "rx_run a (p, c # cs, []) = (p1, r1, g1) # sts" by simp
    show ?thesis
    proof (cases "length r1 < length (c # cs)")
      case True
      then have "re_sub_del a p (c # cs) = re_sub_del a p1 r1"
        by (subst re_sub_del.simps) (simp add: run)
      with True r show ?thesis by blast
    next
      case False
      then have "re_sub_del a p (c # cs) = c # re_sub_del a (c # p) cs"
        by (subst re_sub_del.simps) (simp add: run)
      with r show ?thesis by simp
    qed
  qed
qed

lemma re_sub_del_length: "length (re_sub_del a p r) \<le> length r"
proof (induction "length r" arbitrary: p r rule: less_induct)
  case less
  from re_sub_del_cases [of r a p] show ?case
  proof (elim disjE exE conjE)
    assume "r = []" then show ?thesis by (simp add: re_sub_del_Nil)
  next
    fix p1 r1 assume a: "length r1 < length r" "re_sub_del a p r = re_sub_del a p1 r1"
    from less [OF a(1), of p1] a show ?thesis by simp
  next
    fix c cs assume a: "r = c # cs" "re_sub_del a p r = c # re_sub_del a (c # p) cs"
    from less [of cs "c # p"] a show ?thesis by simp
  qed
qed

lemma re_sub_del_same_length:
  "length (re_sub_del a p r) = length r \<Longrightarrow> re_sub_del a p r = r"
proof (induction r arbitrary: p)
  case Nil
  then show ?case by (simp add: re_sub_del_Nil)
next
  case (Cons c cs)
  from re_sub_del_cases [of "c # cs" a p] show ?case
  proof (elim disjE exE conjE)
    assume "c # cs = []" then show ?thesis by simp
  next
    fix p1 r1 assume a: "length r1 < length (c # cs)" "re_sub_del a p (c # cs) = re_sub_del a p1 r1"
    have "length (re_sub_del a p1 r1) \<le> length r1" by (rule re_sub_del_length)
    with a Cons.prems show ?thesis by simp
  next
    fix c' cs' assume a: "c # cs = c' # cs'" "re_sub_del a p (c # cs) = c' # re_sub_del a (c' # p) cs'"
    with Cons.prems Cons.IH [of "c # p"] show ?thesis by simp
  qed
qed

lemma clean_description_stripped: "strip (clean_description d) = clean_description d"
  by (cases d) (simp_all add: clean_description_def strip_Nil strip_strip)

text \<open>
  Claim C3, as amended. Empty and absent input yield the empty string. Normalizing twice is
  normalizing once exactly for the strings whose normal form neither removal changes any
  more: the normal form of \<^verbatim>\<open>A NOT USED NOT USED\<close> is \<^verbatim>\<open>A NOT USED\<close>, which the second
  removal shortens again, since \<^verbatim>\<open>$\<close> lets it delete one suffix per call.
\<close>

theorem clean_description_fixed_point:
  "clean_description None = [] \<and> clean_description (Some []) = []
   \<and> (clean_description (Some (clean_description (Some s))) = clean_description (Some s)
        \<longleftrightarrow> re_sub_del status_rx [] (clean_description (Some s)) = clean_description (Some s)
            \<and> re_sub_del not_used_rx [] (clean_description (Some s)) = clean_description (Some s))"
proof -
  define t where "t = clean_description (Some s)"
  have st: "strip t = t" unfolding t_def by (rule clean_description_stripped)
  have "clean_description (Some t) = t \<longleftrightarrow>
          re_sub_del status_rx [] t = t \<and> re_sub_del not_used_rx [] t = t"
  proof (cases "t = []")
    case True
    then show ?thesis by (simp add: clean_description_def re_sub_del_Nil)
  next
    case False
    then have c: "clean_description (Some t) = strip (re_sub_del not_used_rx [] (re_sub_del status_rx [] t))"
      by (simp add: clean_description_def)
    show ?thesis
    proof
      assume "re_sub_del status_rx [] t = t \<and> re_sub_del not_used_rx [] t = t"
      then show "clean_description (Some t) = t" by (simp add: c st)
    next
      assume fp: "clean_description (Some t) = t"
      let ?a = "re_sub_del status_rx [] t"
      let ?b = "re_sub_del not_used_rx [] ?a"
      have l1: "length (strip ?b) \<le> length ?b" by (rule strip_length)
      have l2: "length ?b \<le> length ?a" by (rule re_sub_del_length)
      have l3: "length ?a \<le> length t" by (rule re_sub_del_length)
      from fp c have "length (strip ?b) = length t" by simp
      with l1 l2 l3 have e: "length ?a = length t" "length ?b = length ?a" by auto
      from e(1) have a: "?a = t" by (rule re_sub_del_same_length)
      from e(2) have "?b = ?a" by (rule re_sub_del_same_length)
      with a show "re_sub_del status_rx [] t = t \<and> re_sub_del not_used_rx [] t = t" by simp
    qed
  qed
  then show ?thesis by (simp add: t_def clean_description_def)
qed

theorem clean_description_fixed_point_witness:
  "clean_description (Some (clean_description (Some ''Party qualifier M C an..3''))) =
     clean_description (Some ''Party qualifier M C an..3'')
   \<and> clean_description (Some ''Party qualifier M C an..3'') = ''Party qualifier''"
proof -
  have a: "clean_description (Some ''Party qualifier M C an..3'') = ''Party qualifier''"
    by code_simp
  have b: "re_sub_del status_rx [] ''Party qualifier'' = ''Party qualifier''" by code_simp
  have c: "re_sub_del not_used_rx [] ''Party qualifier'' = ''Party qualifier''" by code_simp
  from clean_description_fixed_point [of "''Party qualifier M C an..3''"] a b c
  show ?thesis by simp
qed

text \<open>The claim as stated fails: a description that ends in two \<^verbatim>\<open>NOT USED\<close> suffixes.\<close>

theorem clean_description_not_idempotent:
  "clean_description (Some (clean_description (Some ''A NOT USED NOT USED''))) \<noteq>
     clean_description (Some ''A NOT USED NOT USED'')"
  by code_simp

section \<open>Format detection: the first page that matches a rule decides\<close>

lemma detect_pages_vda:
  "detect_pages pgs = Vda4932 \<longleftrightarrow>
     (\<exists>i<length pgs. vda_rule (page_text (pgs ! i)) \<and> (\<forall>j<i. \<not> faurecia_rule (page_text (pgs ! j))))"
proof (induction pgs)
  case Nil
  then show ?case by simp
next
  case (Cons pg pgs)
  show ?case
  proof (cases "vda_rule (page_text pg)")
    case True
    then have "detect_pages (pg # pgs) = Vda4932" by simp
    moreover from True have "\<exists>i<length (pg # pgs). vda_rule (page_text ((pg # pgs) ! i))
        \<and> (\<forall>j<i. \<not> faurecia_rule (page_text ((pg # pgs) ! j)))"
      by (intro exI [of _ 0]) simp
    ultimately show ?thesis by simp
  next
    case False
    show ?thesis
    proof (cases "faurecia_rule (page_text pg)")
      case True
      with False have "detect_pages (pg # pgs) = Faurecia" by simp
      moreover have "\<not> (\<exists>i<length (pg # pgs). vda_rule (page_text ((pg # pgs) ! i))
          \<and> (\<forall>j<i. \<not> faurecia_rule (page_text ((pg # pgs) ! j))))"
      proof
        assume "\<exists>i<length (pg # pgs). vda_rule (page_text ((pg # pgs) ! i))
          \<and> (\<forall>j<i. \<not> faurecia_rule (page_text ((pg # pgs) ! j)))"
        then obtain i where i: "vda_rule (page_text ((pg # pgs) ! i))"
          "\<forall>j<i. \<not> faurecia_rule (page_text ((pg # pgs) ! j))" by blast
        show False
        proof (cases i)
          case 0
          with i(1) False show False by simp
        next
          case (Suc k)
          with i(2) have "\<not> faurecia_rule (page_text ((pg # pgs) ! 0))" by blast
          with True show False by simp
        qed
      qed
      ultimately show ?thesis by simp
    next
      case nf: False
      from False nf have "detect_pages (pg # pgs) = detect_pages pgs" by simp
      moreover from False nf have
        "(\<exists>i<length (pg # pgs). vda_rule (page_text ((pg # pgs) ! i))
            \<and> (\<forall>j<i. \<not> faurecia_rule (page_text ((pg # pgs) ! j))))
         \<longleftrightarrow> (\<exists>i<length pgs. vda_rule (page_text (pgs ! i))
            \<and> (\<forall>j<i. \<not> faurecia_rule (page_text (pgs ! j))))"
        by (simp add: Ex_less_Suc2 All_less_Suc2)
      ultimately show ?thesis using Cons.IH by simp
    qed
  qed
qed

lemma fmt_cases: "f = Vda4932 \<or> f = Faurecia"
  by (cases f) simp_all

text \<open>
  Claim C2, as amended. The detector returns one of the two tags, whatever the document. It
  returns \<^verbatim>\<open>vda4932\<close> exactly when one of the first 10 pages matches rule 1 and no page
  before it matches a Faurecia rule: the four rules are tried page by page, so rule 1 has
  priority within a page, and an earlier page that matches a Faurecia rule decides first.
  Otherwise, and so when no rule matches at all, it returns \<^verbatim>\<open>faurecia\<close>.
\<close>

theorem detect_pdf_format_first_match:
  "(detect_pdf_format pages = Vda4932 \<or> detect_pdf_format pages = Faurecia)
   \<and> (detect_pdf_format pages = Vda4932 \<longleftrightarrow>
        (\<exists>i < min 10 (length pages). vda_rule (page_text (pages ! i))
            \<and> (\<forall>j<i. \<not> faurecia_rule (page_text (pages ! j)))))
   \<and> (detect_pdf_format pages = Faurecia \<longleftrightarrow>
        \<not> (\<exists>i < min 10 (length pages). vda_rule (page_text (pages ! i))
            \<and> (\<forall>j<i. \<not> faurecia_rule (page_text (pages ! j)))))"
proof -
  have a: "detect_pdf_format pages = Vda4932 \<longleftrightarrow>
        (\<exists>i < min 10 (length pages). vda_rule (page_text (pages ! i))
            \<and> (\<forall>j<i. \<not> faurecia_rule (page_text (pages ! j))))"
    unfolding detect_pdf_format_def detect_pages_vda
    by (rule iffI; elim exE conjE; rule_tac x = i in exI; simp)
  from fmt_cases [of "detect_pdf_format pages"] a show ?thesis by auto
qed

text \<open>A cover page that matches no rule, then a page with a VDA segment header.\<close>

theorem detect_pdf_format_first_match_witness:
  "detect_pdf_format
     [\<lparr>extract_text = Some ''EDI Guideline'', extract_tables = []\<rparr>,
      \<lparr>extract_text = Some ''Segment: NAD Cons. No.: 14 Level: 1 Name and address'',
       extract_tables = []\<rparr>] = Vda4932"
proof -
  have v: "vda_rule ''Segment: NAD Cons. No.: 14 Level: 1 Name and address''" by code_simp
  have f: "\<not> faurecia_rule ''EDI Guideline''" by code_simp
  have "\<exists>i < min 10 (length [\<lparr>extract_text = Some ''EDI Guideline'', extract_tables = []\<rparr>,
      \<lparr>extract_text = Some ''Segment: NAD Cons. No.: 14 Level: 1 Name and address'',
       extract_tables = []\<rparr>]).
     vda_rule (page_text ([\<lparr>extract_text = Some ''EDI Guideline'', extract_tables = []\<rparr>,
      \<lparr>extract_text = Some ''Segment: NAD Cons. No.: 14 Level: 1 Name and address'',
       extract_tables = []\<rparr>] ! i))
     \<and> (\<forall>j<i. \<not> faurecia_rule (page_text ([\<lparr>extract_text = Some ''EDI Guideline'', extract_tables = []\<rparr>,
      \<lparr>extract_text = Some ''Segment: NAD Cons. No.: 14 Level: 1 Name and address'',
       extract_tables = []\<rparr>] ! j)))"
    using v f by (intro exI [of _ 1]) (simp add: page_text_def)
  with detect_pdf_format_first_match [of "[\<lparr>extract_text = Some ''EDI Guideline'', extract_tables = []\<rparr>,
      \<lparr>extract_text = Some ''Segment: NAD Cons. No.: 14 Level: 1 Name and address'',
       extract_tables = []\<rparr>]"]
  show ?thesis by blast
qed

text \<open>
  The claim as stated fails: the second page matches rule 1, but the first page matches a
  Faurecia rule and the detector answers \<^verbatim>\<open>faurecia\<close>.
\<close>

theorem detect_pdf_format_page_order:
  "vda_rule (page_text \<lparr>extract_text = Some ''Segment: NAD Cons. No.: 14 Level: 1'',
       extract_tables = []\<rparr>)
   \<and> detect_pdf_format
       [\<lparr>extract_text = Some ''Segment: Pos.: 010 Level: 1'', extract_tables = []\<rparr>,
        \<lparr>extract_text = Some ''Segment: NAD Cons. No.: 14 Level: 1'', extract_tables = []\<rparr>]
     = Faurecia"
  by code_simp

section \<open>The enricher\<close>

lemma enrich_segment_placeholder:
  assumes "clean_description (Some (description s)) \<in> {[], ''0'', ''1''}"
  shows "enrich_segment k s =
     s\<lparr>description := (case map_of standard_descriptions k of
                          Some name \<Rightarrow> name
                        | None \<Rightarrow> clean_description (Some (description s)))\<rparr>"
proof (cases "description s = []")
  case True
  then show ?thesis
    by (simp add: enrich_segment_def clean_description_def split: option.splits)
next
  case False
  with assms show ?thesis
    by (auto simp: enrich_segment_def Let_def split: option.splits)
qed

text \<open>
  Claim C8. A segment of the dictionary whose description, normalized again, is empty or one
  of the placeholders \<^verbatim>\<open>0\<close> and \<^verbatim>\<open>1\<close> leaves the enricher with the name the standard table
  gives its mnemonic, and with the normalized description when the table does not have the
  mnemonic; the enricher keeps the mnemonics and their order.
\<close>

theorem add_standard_descriptions_placeholder:
  assumes "(k, s) \<in> set (segments_dict ex)"
    and "clean_description (Some (description s)) \<in> {[], ''0'', ''1''}"
  shows "(k, s\<lparr>description := (case map_of standard_descriptions k of
                                  Some name \<Rightarrow> name
                                | None \<Rightarrow> clean_description (Some (description s)))\<rparr>)
           \<in> set (segments_dict (add_standard_descriptions ex))
         \<and> map fst (segments_dict (add_standard_descriptions ex)) = map fst (segments_dict ex)"
proof
  from assms(1) have "(k, enrich_segment k s) \<in> set (segments_dict (add_standard_descriptions ex))"
    by (force simp: add_standard_descriptions_def)
  with assms(2) show "(k, s\<lparr>description := (case map_of standard_descriptions k of
                                  Some name \<Rightarrow> name
                                | None \<Rightarrow> clean_description (Some (description s)))\<rparr>)
           \<in> set (segments_dict (add_standard_descriptions ex))"
    by (simp add: enrich_segment_placeholder)
  show "map fst (segments_dict (add_standard_descriptions ex)) = map fst (segments_dict ex)"
    by (simp add: add_standard_descriptions_def case_prod_beta comp_def)
qed

text \<open>
  The segment \<^verbatim>\<open>MOA\<close> with an empty description becomes \<^verbatim>\<open>Monetary amount\<close>; the segment
  \<^verbatim>\<open>ZZZ\<close>, which the table does not have, keeps its empty description.
\<close>

theorem add_standard_descriptions_placeholder_witness:
  "(''MOA'', \<lparr>segment = ''MOA'', description = ''Monetary amount'', elements = []\<rparr>)
     \<in> set (segments_dict (add_standard_descriptions
          (init_extractor\<lparr>segments_dict :=
             [(''MOA'', \<lparr>segment = ''MOA'', description = [], elements = []\<rparr>),
              (''ZZZ'', \<lparr>segment = ''ZZZ'', description = [], elements = []\<rparr>)]\<rparr>)))
   \<and> (''ZZZ'', \<lparr>segment = ''ZZZ'', description = [], elements = []\<rparr>)
     \<in> set (segments_dict (add_standard_descriptions
          (init_extractor\<lparr>segments_dict :=
             [(''MOA'', \<lparr>segment = ''MOA'', description = [], elements = []\<rparr>),
              (''ZZZ'', \<lparr>segment = ''ZZZ'', description = [], elements = []\<rparr>)]\<rparr>)))"
proof -
  let ?ex = "init_extractor\<lparr>segments_dict :=
             [(''MOA'', \<lparr>segment = ''MOA'', description = [], elements = []\<rparr>),
              (''ZZZ'', \<lparr>segment = ''ZZZ'', description = [], elements = []\<rparr>)]\<rparr>"
  have c: "clean_description (Some []) \<in> {[], ''0'', ''1''}" by (simp add: clean_description_def)
  have m: "map_of standard_descriptions ''MOA'' = Some ''Monetary amount''" by code_simp
  have z: "map_of standard_descriptions ''ZZZ'' = None" by code_simp
  have "(''MOA'', \<lparr>segment = ''MOA'', description = [], elements = []\<rparr>) \<in> set (segments_dict ?ex)"
    by simp
  from add_standard_descriptions_placeholder [OF this] c m
  have a: "(''MOA'', \<lparr>segment = ''MOA'', description = ''Monetary amount'', elements = []\<rparr>)
     \<in> set (segments_dict (add_standard_descriptions ?ex))" by simp
  have "(''ZZZ'', \<lparr>segment = ''ZZZ'', description = [], elements = []\<rparr>) \<in> set (segments_dict ?ex)"
    by simp
  from add_standard_descriptions_placeholder [OF this] c z
  have b: "(''ZZZ'', \<lparr>segment = ''ZZZ'', description = [], elements = []\<rparr>)
     \<in> set (segments_dict (add_standard_descriptions ?ex))" by (simp add: clean_description_def)
  from a b show ?thesis by simp
qed

section \<open>The VDA table parser on an empty dictionary\<close>

text \<open>
  Claim C10. When the dictionary is empty the VDA table parser returns at once: the table is
  discarded, the extractor is as it was and nothing is raised. On every dictionary the
  parser returns normally, so reading the last segment never fails.
\<close>

theorem parse_vda_table_empty_dict:
  "(segments_dict ex = [] \<longrightarrow> parse_vda_table t ex = Inr ex)
   \<and> (\<exists>ex'. parse_vda_table t ex = Inr ex')"
  using parse_vda_table_ok [of t ex] by (simp add: parse_vda_table_def)

text \<open>
  A table with a group and an element: nothing is read from it before a segment header has
  been seen, and it is read once the dictionary has a segment.
\<close>

theorem parse_vda_table_empty_dict_witness:
  "segments_dict init_extractor = []
   \<and> parse_vda_table [[Some ''C082 Party identification details'', None],
         [Some ''3039 Party id'', Some ''an..35'', Some ''4711'', Some ''--''], []] init_extractor
       = Inr init_extractor
   \<and> parse_vda_table [[Some ''C082 Party identification details'', None],
         [Some ''3039 Party id'', Some ''an..35'', Some ''4711'', Some ''--''], []]
         (add_segment ''NAD'' ''Name and address'' init_extractor)
       \<noteq> Inr (add_segment ''NAD'' ''Name and address'' init_extractor)"
proof -
  have a: "segments_dict init_extractor = []" by (simp add: init_extractor_def)
  have b: "parse_vda_table [[Some ''C082 Party identification details'', None],
         [Some ''3039 Party id'', Some ''an..35'', Some ''4711'', Some ''--''], []]
         (add_segment ''NAD'' ''Name and address'' init_extractor)
       \<noteq> Inr (add_segment ''NAD'' ''Name and address'' init_extractor)"
    by code_simp
  from a b parse_vda_table_empty_dict [of init_extractor
      "[[Some ''C082 Party identification details'', None],
         [Some ''3039 Party id'', Some ''an..35'', Some ''4711'', Some ''--''], []]"]
  show ?thesis by blast
qed

section \<open>The usage sentinel of the VDA parser\<close>

lemma vda_usage_sentinel: "strip col3 = ''--'' \<Longrightarrow> vda_usage col3 rows = Inr []"
  by (simp add: vda_usage_def)

text \<open>
  Claim C9. When the trimmed usage cell of a row of a VDA table is the sentinel \<^verbatim>\<open>--\<close>, the
  rows after it are not looked at (the row does what it would do as the last row of the
  table), and the element the row allocates, if it allocates one, has the empty usage.
\<close>

theorem vda_sentinel_usage:
  assumes "strip (cell_at (map clean_cell row) 3) = ''--''"
  shows "vda_row i row rows (cg, ex) = vda_row i row [] (cg, ex)
         \<and> (\<forall>cg' ex'. vda_row i row rows (cg, ex) = Inr (cg', ex') \<longrightarrow>
              list_all (\<lambda>e. usage e = []) (drop (length (element_heap ex)) (element_heap ex')))"
proof
  show "vda_row i row rows (cg, ex) = vda_row i row [] (cg, ex)"
    by (simp add: vda_row_def Let_def vda_usage_sentinel [OF assms] split: option.split)
  show "\<forall>cg' ex'. vda_row i row rows (cg, ex) = Inr (cg', ex') \<longrightarrow>
          list_all (\<lambda>e. usage e = []) (drop (length (element_heap ex)) (element_heap ex'))"
  proof (cases rule: vda_row_cases [of i row rows cg ex])
    case skip
    then show ?thesis by simp
  next
    case (group gr)
    then show ?thesis by auto
  next
    case (nested a e)
    with vda_usage_sentinel [OF assms, of rows] show ?thesis by auto
  next
    case (direct e)
    with vda_usage_sentinel [OF assms, of rows] show ?thesis by auto
  qed
qed

text \<open>
  An element row with the sentinel, before a row that the look-ahead would fold in: the
  element has no usage. With a usage text in place of the sentinel the next row is folded in.
\<close>

theorem vda_sentinel_usage_witness:
  "strip (cell_at (map clean_cell [Some ''3039 Party id'', Some ''an..35'', Some ''4711'', Some '' -- '']) 3) = ''--''
   \<and> vda_row 0 [Some ''3039 Party id'', Some ''an..35'', Some ''4711'', Some '' -- '']
        [[Some [], Some [], Some [], Some ''ZZ = Mutually defined'']]
        (None, add_segment ''NAD'' ''Name and address'' init_extractor)
      = vda_row 0 [Some ''3039 Party id'', Some ''an..35'', Some ''4711'', Some '' -- ''] []
        (None, add_segment ''NAD'' ''Name and address'' init_extractor)
   \<and> map usage (element_heap (snd (projr (vda_row 0
        [Some ''3039 Party id'', Some ''an..35'', Some ''4711'', Some '' -- '']
        [[Some [], Some [], Some [], Some ''ZZ = Mutually defined'']]
        (None, add_segment ''NAD'' ''Name and address'' init_extractor))))) = [[]]
   \<and> map usage (element_heap (snd (projr (vda_row 0
        [Some ''3039 Party id'', Some ''an..35'', Some ''4711'', Some ''Code'']
        [[Some [], Some [], Some [], Some ''ZZ = Mutually defined'']]
        (None, add_segment ''NAD'' ''Name and address'' init_extractor)))))
      = [''Code'' @ [CHR 0x0A] @ ''ZZ = Mutually defined'']"
proof -
  have h: "strip (cell_at (map clean_cell [Some ''3039 Party id'', Some ''an..35'', Some ''4711'', Some '' -- '']) 3) = ''--''"
    by code_simp
  have a: "map usage (element_heap (snd (projr (vda_row 0
        [Some ''3039 Party id'', Some ''an..35'', Some ''4711'', Some '' -- '']
        [[Some [], Some [], Some [], Some ''ZZ = Mutually defined'']]
        (None, add_segment ''NAD'' ''Name and address'' init_extractor))))) = [[]]"
    by code_simp
  have b: "map usage (element_heap (snd (projr (vda_row 0
        [Some ''3039 Party id'', Some ''an..35'', Some ''4711'', Some ''Code'']
        [[Some [], Some [], Some [], Some ''ZZ = Mutually defined'']]
        (None, add_segment ''NAD'' ''Name and address'' init_extractor)))))
      = [''Code'' @ [CHR 0x0A] @ ''ZZ = Mutually defined'']"
    by code_simp
  from vda_sentinel_usage [OF h, of 0 "[[Some [], Some [], Some [], Some ''ZZ = Mutually defined'']]"
      None "add_segment ''NAD'' ''Name and address'' init_extractor"] h a b
  show ?thesis by blast
qed

section \<open>The tree of segments, groups and elements\<close>

lemma new_groups_empty_same [simp]: "length (group_heap ex') = length (group_heap ex) \<Longrightarrow> new_groups_empty ex ex'"
  by (simp add: new_groups_empty_def)

lemma faurecia_row_tree:
  assumes "tree_ok ex" "group_ok cg ex" "faurecia_row row rows (cs, cg, ex) = Inr (cs', cg', ex')"
  shows "tree_ok ex' \<and> group_ok cg' ex' \<and> new_groups_empty ex ex'"
proof (cases rule: faurecia_row_cases [of row rows cs cg ex])
  case skip
  with assms show ?thesis by simp
next
  case (header seg desc)
  with assms show ?thesis by (auto simp: tree_ok_add_segment group_ok_def)
next
  case (group seg gr)
  let ?ex1 = "ex\<lparr>group_heap := group_heap ex @ [gr]\<rparr>"
  from group(3) assms(3) have a: "segment_append seg (GroupeRef (length (group_heap ex))) ?ex1 = Inr ex'"
    and cg': "cg' = Some (length (group_heap ex))"
    by (auto split: sum.splits)
  from segment_append_is_entry_append [OF a] obtain i where
    i: "i < length (segments_dict ex)" "ex' = entry_append i (GroupeRef (length (group_heap ex))) ?ex1"
    by auto
  from tree_ok_new_group [OF assms(1) group(2) i(1)] i(2) have "tree_ok ex'" by simp
  moreover from i(2) cg' have "group_ok cg' ex'" by (simp add: group_ok_def)
  moreover from i(2) group(2) have "new_groups_empty ex ex'" by (simp add: new_groups_empty_def)
  ultimately show ?thesis by simp
next
  case (nested a e)
  with assms(2) have a: "a < length (group_heap ex)" by (simp add: group_ok_def)
  from nested assms(3) have ex': "ex' = group_append a (length (element_heap ex))
      (ex\<lparr>element_heap := element_heap ex @ [e]\<rparr>)" and cg': "cg' = cg" by simp_all
  from tree_ok_new_nested [OF assms(1) a] ex' have "tree_ok ex'" by simp
  moreover from ex' cg' assms(2) have "group_ok cg' ex'" by (simp add: group_ok_def split: option.splits)
  moreover from ex' have "new_groups_empty ex ex'" by simp
  ultimately show ?thesis by simp
next
  case (direct seg e)
  let ?ex1 = "ex\<lparr>element_heap := element_heap ex @ [e]\<rparr>"
  from direct(3) assms(3) have a: "segment_append seg (ChampRef (length (element_heap ex))) ?ex1 = Inr ex'"
    and cg': "cg' = None"
    by (auto split: sum.splits)
  from segment_append_is_entry_append [OF a] obtain i where
    i: "i < length (segments_dict ex)" "ex' = entry_append i (ChampRef (length (element_heap ex))) ?ex1"
    by auto
  from tree_ok_new_direct [OF assms(1) i(1)] i(2) have "tree_ok ex'" by simp
  moreover from cg' have "group_ok cg' ex'" by (simp add: group_ok_def)
  moreover from i(2) have "new_groups_empty ex ex'" by simp
  ultimately show ?thesis by simp
qed

lemma vda_row_tree:
  assumes "tree_ok ex" "group_ok cg ex" "i < length (segments_dict ex)"
    "vda_row i row rows (cg, ex) = Inr (cg', ex')"
  shows "tree_ok ex' \<and> group_ok cg' ex' \<and> new_groups_empty ex ex'
         \<and> length (segments_dict ex') = length (segments_dict ex)"
proof (cases rule: vda_row_cases [of i row rows cg ex])
  case skip
  with assms show ?thesis by simp
next
  case (group gr)
  with assms(4) have ex': "ex' = entry_append i (GroupeRef (length (group_heap ex)))
      (ex\<lparr>group_heap := group_heap ex @ [gr]\<rparr>)" and cg': "cg' = Some (length (group_heap ex))"
    by simp_all
  from tree_ok_new_group [OF assms(1) group(1) assms(3)] ex' have "tree_ok ex'" by simp
  moreover from ex' cg' have "group_ok cg' ex'" by (simp add: group_ok_def)
  moreover from ex' group(1) have "new_groups_empty ex ex'" by (simp add: new_groups_empty_def)
  moreover from ex' have "length (segments_dict ex') = length (segments_dict ex)" by simp
  ultimately show ?thesis by simp
next
  case (nested a e)
  with assms(2) have a: "a < length (group_heap ex)" by (simp add: group_ok_def)
  from nested assms(4) have ex': "ex' = group_append a (length (element_heap ex))
      (ex\<lparr>element_heap := element_heap ex @ [e]\<rparr>)" and cg': "cg' = cg" by simp_all
  from tree_ok_new_nested [OF assms(1) a] ex' have "tree_ok ex'" by simp
  moreover from ex' cg' assms(2) have "group_ok cg' ex'" by (simp add: group_ok_def split: option.splits)
  moreover from ex' have "new_groups_empty ex ex'" by simp
  moreover from ex' have "length (segments_dict ex') = length (segments_dict ex)" by simp
  ultimately show ?thesis by simp
next
  case (direct e)
  with assms(4) have ex': "ex' = entry_append i (ChampRef (length (element_heap ex)))
      (ex\<lparr>element_heap := element_heap ex @ [e]\<rparr>)" and cg': "cg' = None" by simp_all
  from tree_ok_new_direct [OF assms(1) assms(3)] ex' have "tree_ok ex'" by simp
  moreover from cg' have "group_ok cg' ex'" by (simp add: group_ok_def)
  moreover from ex' have "new_groups_empty ex ex'" by simp
  moreover from ex' have "length (segments_dict ex') = length (segments_dict ex)" by simp
  ultimately show ?thesis by simp
qed

lemma faurecia_rows_tree:
  "tree_ok ex \<Longrightarrow> group_ok cg ex \<Longrightarrow> faurecia_rows rows (cs, cg, ex) = Inr (cs', cg', ex')
     \<Longrightarrow> tree_ok ex'"
proof (induction rows arbitrary: cs cg ex)
  case Nil
  then show ?case by simp
next
  case (Cons row rows)
  from Cons.prems(3) obtain cs1 cg1 ex1 where
    r: "faurecia_row row rows (cs, cg, ex) = Inr (cs1, cg1, ex1)"
       "faurecia_rows rows (cs1, cg1, ex1) = Inr (cs', cg', ex')"
    by (auto split: sum.splits)
  from faurecia_row_tree [OF Cons.prems(1,2) r(1)] have "tree_ok ex1" "group_ok cg1 ex1" by simp_all
  from Cons.IH [OF this r(2)] show ?case .
qed

lemma vda_rows_tree:
  "tree_ok ex \<Longrightarrow> group_ok cg ex \<Longrightarrow> i < length (segments_dict ex)
     \<Longrightarrow> vda_rows i rows (cg, ex) = Inr (cg', ex') \<Longrightarrow> tree_ok ex'"
proof (induction rows arbitrary: cg ex)
  case Nil
  then show ?case by simp
next
  case (Cons row rows)
  from Cons.prems(4) obtain cg1 ex1 where
    r: "vda_row i row rows (cg, ex) = Inr (cg1, ex1)" "vda_rows i rows (cg1, ex1) = Inr (cg', ex')"
    by (auto split: sum.splits)
  from vda_row_tree [OF Cons.prems(1,2,3) r(1)] Cons.prems(3)
  have "tree_ok ex1" "group_ok cg1 ex1" "i < length (segments_dict ex1)" by simp_all
  from Cons.IH [OF this r(2)] show ?case .
qed

lemma parse_faurecia_table_tree:
  assumes "tree_ok ex" "parse_faurecia_table t ex = Inr ex'"
  shows "tree_ok ex'"
proof -
  from assms(2) obtain cs' cg' where "faurecia_rows t (None, None, ex) = Inr (cs', cg', ex')"
    by (auto simp: parse_faurecia_table_def split: sum.splits)
  from faurecia_rows_tree [OF assms(1) _ this] show ?thesis by (simp add: group_ok_def)
qed

lemma parse_vda_table_tree:
  assumes "tree_ok ex" "parse_vda_table t ex = Inr ex'"
  shows "tree_ok ex'"
proof (cases "segments_dict ex = []")
  case True
  with assms show ?thesis by (simp add: parse_vda_table_def)
next
  case False
  with assms(2) obtain cg' where
    "vda_rows (length (segments_dict ex) - 1) t (None, ex) = Inr (cg', ex')"
    by (auto simp: parse_vda_table_def py_last_index_def split: sum.splits)
  from vda_rows_tree [OF assms(1) _ _ this] False show ?thesis by (simp add: group_ok_def)
qed

lemma tree_ok_pdf_format [simp]: "tree_ok (ex\<lparr>pdf_format := f\<rparr>) = tree_ok ex"
  by (simp add: tree_ok_def elem_refs_def group_refs_def)

lemma elements_enrich_segment [simp]: "elements (enrich_segment k s) = elements s"
  by (simp add: enrich_segment_def Let_def split: option.splits)

lemma tree_ok_add_standard_descriptions [simp]:
  "tree_ok (add_standard_descriptions ex) = tree_ok ex"
  by (simp add: tree_ok_def elem_refs_def group_refs_def add_standard_descriptions_def
      comp_def case_prod_beta)

lemma extract_faurecia_format_tree:
  assumes "tree_ok ex" "extract_faurecia_format pages ex = Inr ex'"
  shows "tree_ok ex'"
proof (rule for_each_invariant [where P = tree_ok, OF _ assms(1) assms(2) [unfolded extract_faurecia_format_def]])
  fix pg :: page and s s'
  assume s: "tree_ok s" "for_each faurecia_table_step (extract_tables pg) s = Inr s'"
  show "tree_ok s'"
  proof (rule for_each_invariant [where P = tree_ok, OF _ s])
    fix t s s'
    assume "tree_ok s" "faurecia_table_step t s = Inr s'"
    then show "tree_ok s'"
      using parse_faurecia_table_tree [of s t s']
      by (auto simp: faurecia_table_step_def split: if_splits)
  qed
qed

lemma vda_page_tree:
  assumes "tree_ok ex" "vda_page pg ex = Inr ex'"
  shows "tree_ok ex'"
proof (cases "extract_text pg")
  case None
  with assms show ?thesis by (simp add: vda_page_def)
next
  case (Some tx)
  show ?thesis
  proof (cases "tx = []")
    case True
    with assms Some show ?thesis by (simp add: vda_page_def)
  next
    case False
    let ?ex1 = "fold (\<lambda>m. add_segment (group_of m 1) (strip (group_of m 4)))
                  (re_finditer vda_segment_rx [] tx) ex"
    have t1: "tree_ok ?ex1"
      by (rule fold_invariant [where P = tree_ok, OF _ assms(1)]) (rule tree_ok_add_segment)
    from assms(2) Some False have f: "for_each vda_table_step (extract_tables pg) ?ex1 = Inr ex'"
      by (simp add: vda_page_def Let_def)
    show ?thesis
    proof (rule for_each_invariant [where P = tree_ok, OF _ t1 f])
      fix t s s'
      assume "tree_ok s" "vda_table_step t s = Inr s'"
      then show "tree_ok s'"
        using parse_vda_table_tree [of s t s']
        by (auto simp: vda_table_step_def split: if_splits)
    qed
  qed
qed

lemma extract_vda4932_format_tree:
  assumes "tree_ok ex" "extract_vda4932_format pages ex = Inr ex'"
  shows "tree_ok ex'"
  by (rule for_each_invariant [where P = tree_ok, OF _ assms(1) assms(2) [unfolded extract_vda4932_format_def]])
     (rule vda_page_tree)

lemma extract_all_tree:
  assumes "tree_ok ex" "extract_all pages ex = Inr (segs, ex')"
  shows "tree_ok ex'"
proof -
  let ?ex0 = "ex\<lparr>pdf_format := Some (detect_pdf_format pages)\<rparr>"
  from assms(1) have t0: "tree_ok ?ex0" by simp
  from assms(2) obtain ex1 where
    e: "(if detect_pdf_format pages = Vda4932 then extract_vda4932_format pages ?ex0
         else extract_faurecia_format pages ?ex0) = Inr ex1"
    and ex': "ex' = add_standard_descriptions ex1"
    by (auto simp: extract_all_def Let_def split: sum.splits)
  from e t0 have "tree_ok ex1"
    using extract_vda4932_format_tree [of ?ex0 pages ex1] extract_faurecia_format_tree [of ?ex0 pages ex1]
    by (auto split: if_splits)
  with ex' show ?thesis by simp
qed

lemma tree_ok_init: "tree_ok init_extractor"
  by (simp add: tree_ok_def init_extractor_def elem_refs_def group_refs_def)

text \<open>
  Claim C5. In the stores, every element object is referenced exactly once, from the list of
  one segment or of one group, and every group object exactly once, from the list of one
  segment (\<open>tree_ok\<close>). Both row loops keep this from row to row, with \<^verbatim>\<open>current_group\<close> a
  group of the store, and a group that a row allocates is in its segment and still without
  children when the row is done: elements only ever reach a group that a segment already
  holds. Both table parsers and the whole extraction keep the tree; it holds of the empty
  extractor.
\<close>

theorem tree_structure_preserved:
  assumes "tree_ok ex" and "group_ok cg ex"
  shows "(faurecia_row row rows (cs, cg, ex) = Inr (cs', cg', ex')
            \<longrightarrow> tree_ok ex' \<and> group_ok cg' ex' \<and> new_groups_empty ex ex')
       \<and> (i < length (segments_dict ex) \<and> vda_row i row rows (cg, ex) = Inr (cg2, ex2)
            \<longrightarrow> tree_ok ex2 \<and> group_ok cg2 ex2 \<and> new_groups_empty ex ex2)
       \<and> (parse_faurecia_table t ex = Inr ex3 \<longrightarrow> tree_ok ex3)
       \<and> (parse_vda_table t ex = Inr ex4 \<longrightarrow> tree_ok ex4)
       \<and> (extract_all pages ex = Inr (segs, ex5) \<longrightarrow> tree_ok ex5)
       \<and> tree_ok init_extractor"
  using faurecia_row_tree [OF assms, of row rows cs cs' cg' ex']
    vda_row_tree [OF assms, of i row rows cg2 ex2]
    parse_faurecia_table_tree [OF assms(1), of t ex3]
    parse_vda_table_tree [OF assms(1), of t ex4]
    extract_all_tree [OF assms(1), of pages segs ex5] tree_ok_init
  by blast

text \<open>
  A Faurecia table with an element of the segment, a group and an element of the group, read
  into the empty extractor: the tree holds of the result.
\<close>

theorem tree_structure_preserved_witness:
  "tree_ok init_extractor \<and> group_ok None init_extractor
   \<and> parse_faurecia_table
        [[Some ''Segment: NAD''], [Some ''3035'', Some ''Party qualifier''],
         [Some ''C082'', Some ''Party identification''], [Some ''3039'', Some ''Party id'']]
        init_extractor
      = Inr \<lparr>segments_dict =
               [(''NAD'', \<lparr>segment = ''NAD'', description = [],
                           elements = [ChampRef 0, GroupeRef 0]\<rparr>)],
             element_heap =
               [\<lparr>champ = ''3035'', champ_description = ''Party qualifier'', format = [],
                  valeur = [], usage = []\<rparr>,
                \<lparr>champ = ''3039'', champ_description = ''Party id'', format = [],
                  valeur = [], usage = []\<rparr>],
             group_heap =
               [\<lparr>groupe = ''C082'', groupe_description = ''Party identification'', champs = [1]\<rparr>],
             pdf_format = None\<rparr>
   \<and> tree_ok \<lparr>segments_dict =
               [(''NAD'', \<lparr>segment = ''NAD'', description = [],
                           elements = [ChampRef 0, GroupeRef 0]\<rparr>)],
             element_heap =
               [\<lparr>champ = ''3035'', champ_description = ''Party qualifier'', format = [],
                  valeur = [], usage = []\<rparr>,
                \<lparr>champ = ''3039'', champ_description = ''Party id'', format = [],
                  valeur = [], usage = []\<rparr>],
             group_heap =
               [\<lparr>groupe = ''C082'', groupe_description = ''Party identification'', champs = [1]\<rparr>],
             pdf_format = None\<rparr>"
proof -
  have a: "tree_ok init_extractor" by (rule tree_ok_init)
  have b: "group_ok None init_extractor" by (simp add: group_ok_def)
  have c: "parse_faurecia_table
        [[Some ''Segment: NAD''], [Some ''3035'', Some ''Party qualifier''],
         [Some ''C082'', Some ''Party identification''], [Some ''3039'', Some ''Party id'']]
        init_extractor
      = Inr \<lparr>segments_dict =
               [(''NAD'', \<lparr>segment = ''NAD'', description = [],
                           elements = [ChampRef 0, GroupeRef 0]\<rparr>)],
             element_heap =
               [\<lparr>champ = ''3035'', champ_description = ''Party qualifier'', format = [],
                  valeur = [], usage = []\<rparr>,
                \<lparr>champ = ''3039'', champ_description = ''Party id'', format = [],
                  valeur = [], usage = []\<rparr>],
             group_heap =
               [\<lparr>groupe = ''C082'', groupe_description = ''Party identification'', champs = [1]\<rparr>],
             pdf_format = None\<rparr>"
    by code_simp
  from tree_structure_preserved [OF a b] c a b show ?thesis by blast
qed

section \<open>Usage consolidation in the Faurecia parser\<close>

text \<open>
  Claim C1, as amended. In a table whose segment is open, the row
  \<^verbatim>\<open>["3035","Party qualifier","","","CDS","","1","'ZZZ' = Mutually defined"]\<close> followed by the
  row \<^verbatim>\<open>["","","","","","","","'123' = Other code"]\<close> makes the Faurecia parser emit exactly
  one element, and its usage is the first usage cell alone: the usage cell of the second row
  starts with a quote, which the continuation pattern \<^verbatim>\<open>^[A-Z0-9]+\s*=\<close> of this parser does
  not accept. Whatever follows, the look-ahead from the first row stops at the second row,
  and the second row itself changes nothing. A continuation whose usage cell starts with
  the bare code, \<^verbatim>\<open>123 = Other code\<close>, is folded in, joined by a newline.
\<close>

theorem faurecia_usage_consolidation:
  "parse_faurecia_table
     [[Some ''Segment: NAD''],
      [Some ''3035'', Some ''Party qualifier'', Some [], Some [], Some ''CDS'', Some [], Some ''1'',
       Some (CHR 0x27 # ''ZZZ'' @ CHR 0x27 # '' = Mutually defined'')],
      [Some [], Some [], Some [], Some [], Some [], Some [], Some [],
       Some (CHR 0x27 # ''123'' @ CHR 0x27 # '' = Other code'')]] init_extractor
   = Inr \<lparr>segments_dict =
            [(''NAD'', \<lparr>segment = ''NAD'', description = [], elements = [ChampRef 0]\<rparr>)],
          element_heap =
            [\<lparr>champ = ''3035'', champ_description = ''Party qualifier'', format = ''CDS'',
               valeur = ''1'', usage = CHR 0x27 # ''ZZZ'' @ CHR 0x27 # '' = Mutually defined''\<rparr>],
          group_heap = [], pdf_format = None\<rparr>
   \<and> faurecia_usage (CHR 0x27 # ''ZZZ'' @ CHR 0x27 # '' = Mutually defined'')
       ([Some [], Some [], Some [], Some [], Some [], Some [], Some [],
         Some (CHR 0x27 # ''123'' @ CHR 0x27 # '' = Other code'')] # rest)
     = Inr (CHR 0x27 # ''ZZZ'' @ CHR 0x27 # '' = Mutually defined'')
   \<and> faurecia_row [Some [], Some [], Some [], Some [], Some [], Some [], Some [],
         Some (CHR 0x27 # ''123'' @ CHR 0x27 # '' = Other code'')] rest st = Inr st
   \<and> parse_faurecia_table
     [[Some ''Segment: NAD''],
      [Some ''3035'', Some ''Party qualifier'', Some [], Some [], Some ''CDS'', Some [], Some ''1'',
       Some ''ZZZ = Mutually defined''],
      [Some [], Some [], Some [], Some [], Some [], Some [], Some [],
       Some ''123 = Other code'']] init_extractor
   = Inr \<lparr>segments_dict =
            [(''NAD'', \<lparr>segment = ''NAD'', description = [], elements = [ChampRef 0]\<rparr>)],
          element_heap =
            [\<lparr>champ = ''3035'', champ_description = ''Party qualifier'', format = ''CDS'',
               valeur = ''1'', usage = ''ZZZ = Mutually defined'' @ [CHR 0x0A] @ ''123 = Other code''\<rparr>],
          group_heap = [], pdf_format = None\<rparr>"
proof (intro conjI)
  show "parse_faurecia_table
     [[Some ''Segment: NAD''],
      [Some ''3035'', Some ''Party qualifier'', Some [], Some [], Some ''CDS'', Some [], Some ''1'',
       Some (CHR 0x27 # ''ZZZ'' @ CHR 0x27 # '' = Mutually defined'')],
      [Some [], Some [], Some [], Some [], Some [], Some [], Some [],
       Some (CHR 0x27 # ''123'' @ CHR 0x27 # '' = Other code'')]] init_extractor
   = Inr \<lparr>segments_dict =
            [(''NAD'', \<lparr>segment = ''NAD'', description = [], elements = [ChampRef 0]\<rparr>)],
          element_heap =
            [\<lparr>champ = ''3035'', champ_description = ''Party qualifier'', format = ''CDS'',
               valeur = ''1'', usage = CHR 0x27 # ''ZZZ'' @ CHR 0x27 # '' = Mutually defined''\<rparr>],
          group_heap = [], pdf_format = None\<rparr>"
    by code_simp
  show "faurecia_usage (CHR 0x27 # ''ZZZ'' @ CHR 0x27 # '' = Mutually defined'')
       ([Some [], Some [], Some [], Some [], Some [], Some [], Some [],
         Some (CHR 0x27 # ''123'' @ CHR 0x27 # '' = Other code'')] # rest)
     = Inr (CHR 0x27 # ''ZZZ'' @ CHR 0x27 # '' = Mutually defined'')"
    by code_simp
  have "faurecia_unrecognized [Some [], Some [], Some [], Some [], Some [], Some [], Some [],
         Some (CHR 0x27 # ''123'' @ CHR 0x27 # '' = Other code'')]"
    by code_simp
  then show "faurecia_row [Some [], Some [], Some [], Some [], Some [], Some [], Some [],
         Some (CHR 0x27 # ''123'' @ CHR 0x27 # '' = Other code'')] rest st = Inr st"
    by (rule faurecia_unrecognized_skip)
  show "parse_faurecia_table
     [[Some ''Segment: NAD''],
      [Some ''3035'', Some ''Party qualifier'', Some [], Some [], Some ''CDS'', Some [], Some ''1'',
       Some ''ZZZ = Mutually defined''],
      [Some [], Some [], Some [], Some [], Some [], Some [], Some [],
       Some ''123 = Other code'']] init_extractor
   = Inr \<lparr>segments_dict =
            [(''NAD'', \<lparr>segment = ''NAD'', description = [], elements = [ChampRef 0]\<rparr>)],
          element_heap =
            [\<lparr>champ = ''3035'', champ_description = ''Party qualifier'', format = ''CDS'',
               valeur = ''1'', usage = ''ZZZ = Mutually defined'' @ [CHR 0x0A] @ ''123 = Other code''\<rparr>],
          group_heap = [], pdf_format = None\<rparr>"
    by code_simp
qed

text \<open>
  The claim as stated fails: the usage of the element is not the two usage cells joined by
  a newline.
\<close>

theorem faurecia_quoted_continuation_not_folded:
  "map usage (element_heap (projr (parse_faurecia_table
     [[Some ''Segment: NAD''],
      [Some ''3035'', Some ''Party qualifier'', Some [], Some [], Some ''CDS'', Some [], Some ''1'',
       Some (CHR 0x27 # ''ZZZ'' @ CHR 0x27 # '' = Mutually defined'')],
      [Some [], Some [], Some [], Some [], Some [], Some [], Some [],
       Some (CHR 0x27 # ''123'' @ CHR 0x27 # '' = Other code'')]] init_extractor)))
   \<noteq> [(CHR 0x27 # ''ZZZ'' @ CHR 0x27 # '' = Mutually defined'') @ [CHR 0x0A]
        @ (CHR 0x27 # ''123'' @ CHR 0x27 # '' = Other code'')]"
  by code_simp

section \<open>Errors: none for a row, no file for an empty dictionary\<close>

lemma process_pdf_result:
  assumes "extract_all pages init_extractor = Inr (segs, ex')"
  shows "\<exists>r. process_pdf pages = Inr r \<and> (r = None \<longleftrightarrow> segments_dict ex' = [])"
proof -
  from extract_all_dict [OF dict_ok_init assms]
  have d: "dict_ok ex'" and s: "segs = map snd (segments_dict ex')" by simp_all
  from save_to_json_sorted [OF d] obtain out where "save_to_json ex' = Inr out" by blast
  with assms s show ?thesis by (simp add: process_pdf_def)
qed

text \<open>
  Claim C7. Neither table parser raises, whatever the table and the extractor, and neither
  does the processing of a document. A row that no pattern of the Faurecia parser
  recognizes, and a row that the VDA parser does not recognize or that has fewer than two
  cells, leaves the loop state, and with it the dictionary, exactly as it was. No file is
  written exactly when the extraction leaves an empty dictionary.
\<close>

theorem rows_skipped_without_error:
  "(\<exists>ex1. parse_faurecia_table t ex = Inr ex1) \<and> (\<exists>ex2. parse_vda_table t ex = Inr ex2)
   \<and> (faurecia_unrecognized row \<longrightarrow> faurecia_row row rows fs = Inr fs)
   \<and> (vda_unrecognized row \<or> length row < 2 \<longrightarrow> vda_row i row rows vs = Inr vs)
   \<and> (\<exists>segs ex3 r. extract_all pages init_extractor = Inr (segs, ex3) \<and> process_pdf pages = Inr r
         \<and> (r = None \<longleftrightarrow> segments_dict ex3 = []))"
proof -
  obtain segs ex3 where e: "extract_all pages init_extractor = Inr (segs, ex3)"
    using extract_all_ok by blast
  from process_pdf_result [OF e] e
  have "\<exists>segs ex3 r. extract_all pages init_extractor = Inr (segs, ex3) \<and> process_pdf pages = Inr r
         \<and> (r = None \<longleftrightarrow> segments_dict ex3 = [])" by blast
  with parse_faurecia_table_ok [of t ex] parse_vda_table_ok [of t ex]
    faurecia_unrecognized_skip [of row rows fs] vda_unrecognized_skip [of row i rows vs]
  show ?thesis by blast
qed

text \<open>
  A row of two text cells in an open segment, for both parsers, and a document of one cover
  page: the rows change nothing, and no file is written.
\<close>

theorem rows_skipped_without_error_witness:
  "faurecia_unrecognized [Some ''Code'', Some ''Description'']
   \<and> faurecia_row [Some ''Code'', Some ''Description''] []
        (Some ''NAD'', None, add_segment ''NAD'' ''Name and address'' init_extractor)
      = Inr (Some ''NAD'', None, add_segment ''NAD'' ''Name and address'' init_extractor)
   \<and> vda_unrecognized [Some ''Code Description'', Some ''Format'']
   \<and> vda_row 0 [Some ''Code Description'', Some ''Format''] []
        (None, add_segment ''NAD'' ''Name and address'' init_extractor)
      = Inr (None, add_segment ''NAD'' ''Name and address'' init_extractor)
   \<and> process_pdf [\<lparr>extract_text = Some ''EDI Guideline'', extract_tables = []\<rparr>] = Inr None"
proof -
  let ?pages = "[\<lparr>extract_text = Some ''EDI Guideline'', extract_tables = []\<rparr>]"
  have a: "faurecia_unrecognized [Some ''Code'', Some ''Description'']" by code_simp
  have b: "vda_unrecognized [Some ''Code Description'', Some ''Format'']" by code_simp
  have c: "extract_all ?pages init_extractor = Inr ([], init_extractor\<lparr>pdf_format := Some Faurecia\<rparr>)"
    by code_simp
  from rows_skipped_without_error [where row = "[Some ''Code'', Some ''Description'']"
      and rows = "[]"
      and fs = "(Some ''NAD'', None, add_segment ''NAD'' ''Name and address'' init_extractor)"] a
  have d: "faurecia_row [Some ''Code'', Some ''Description''] []
        (Some ''NAD'', None, add_segment ''NAD'' ''Name and address'' init_extractor)
      = Inr (Some ''NAD'', None, add_segment ''NAD'' ''Name and address'' init_extractor)"
    by blast
  from rows_skipped_without_error [where row = "[Some ''Code Description'', Some ''Format'']"
      and rows = "[]" and i = 0
      and vs = "(None, add_segment ''NAD'' ''Name and address'' init_extractor)"] b
  have e: "vda_row 0 [Some ''Code Description'', Some ''Format''] []
        (None, add_segment ''NAD'' ''Name and address'' init_extractor)
      = Inr (None, add_segment ''NAD'' ''Name and address'' init_extractor)"
    by blast
  from rows_skipped_without_error [where pages = ?pages] c
  have f: "process_pdf ?pages = Inr None"
    by (auto simp: init_extractor_def)
  from a b d e f show ?thesis by simp
qed

section \<open>The order of the segments in the output\<close>

text \<open>
  Claim C4, as amended. The array that \<^verbatim>\<open>save_to_json\<close> writes to the output file lists the
  segments by strictly ascending mnemonic, so without a duplicate: it is the sorted list of
  the mnemonics of the dictionary. The list that the facade \<^verbatim>\<open>extract_all\<close> returns has no
  duplicate mnemonic either, but it is in the order of the dictionary, the order in which
  the segments were first seen.
\<close>

theorem output_array_sorted:
  "(process_pdf pages = Inr (Some out) \<longrightarrow> sorted_wrt (<) (map j_segment out))
   \<and> (extract_all pages init_extractor = Inr (segs, ex') \<longrightarrow>
        distinct (map segment segs) \<and> map segment segs = map fst (segments_dict ex')
        \<and> (\<exists>written. save_to_json ex' = Inr written
              \<and> map j_segment written = sort (map segment segs)
              \<and> sorted_wrt (<) (map j_segment written)))"
proof -
  have a: "distinct (map segment segs) \<and> map segment segs = map fst (segments_dict ex')
        \<and> (\<exists>written. save_to_json ex' = Inr written
              \<and> map j_segment written = sort (map segment segs)
              \<and> sorted_wrt (<) (map j_segment written))"
    if e: "extract_all pages init_extractor = Inr (segs, ex')" for segs ex'
  proof -
    from extract_all_dict [OF dict_ok_init e]
    have d: "dict_ok ex'" and s: "segs = map snd (segments_dict ex')" by simp_all
    from d have "map (\<lambda>ks. segment (snd ks)) (segments_dict ex') = map fst (segments_dict ex')"
      by (simp add: dict_ok_def list_all_iff)
    with s have k: "map segment segs = map fst (segments_dict ex')" by (simp add: comp_def)
    with d have "distinct (map segment segs)" by (simp add: dict_ok_def)
    with k save_to_json_sorted [OF d] show ?thesis by simp
  qed
  have "sorted_wrt (<) (map j_segment out)" if p: "process_pdf pages = Inr (Some out)"
  proof -
    from p obtain segs ex where e: "extract_all pages init_extractor = Inr (segs, ex)"
      and w: "save_to_json ex = Inr out"
      by (auto simp: process_pdf_def split: sum.splits if_splits)
    from a [OF e] w show ?thesis by auto
  qed
  with a show ?thesis by blast
qed

text \<open>
  A document whose only table opens the segment \<^verbatim>\<open>NAD\<close> and then the segment \<^verbatim>\<open>BGM\<close>: the
  file lists \<^verbatim>\<open>BGM\<close> first.
\<close>

theorem output_array_sorted_witness:
  "process_pdf [\<lparr>extract_text = None, extract_tables =
       [[[Some ''Segment: NAD''], [Some ''Segment: BGM''], [], [], []]]\<rparr>]
     = Inr (Some [\<lparr>j_segment = ''BGM'', j_description = ''Beginning of message'', j_elements = []\<rparr>,
                  \<lparr>j_segment = ''NAD'', j_description = ''Name and address'', j_elements = []\<rparr>])
   \<and> sorted_wrt (<) (map j_segment
        [\<lparr>j_segment = ''BGM'', j_description = ''Beginning of message'', j_elements = []\<rparr>,
         \<lparr>j_segment = ''NAD'', j_description = ''Name and address'', j_elements = []\<rparr>])"
proof -
  have p: "process_pdf [\<lparr>extract_text = None, extract_tables =
       [[[Some ''Segment: NAD''], [Some ''Segment: BGM''], [], [], []]]\<rparr>]
     = Inr (Some [\<lparr>j_segment = ''BGM'', j_description = ''Beginning of message'', j_elements = []\<rparr>,
                  \<lparr>j_segment = ''NAD'', j_description = ''Name and address'', j_elements = []\<rparr>])"
    by code_simp
  from output_array_sorted [of "[\<lparr>extract_text = None, extract_tables =
       [[[Some ''Segment: NAD''], [Some ''Segment: BGM''], [], [], []]]\<rparr>]"] p
  show ?thesis by blast
qed

text \<open>
  The claim as stated fails for what the facade returns: for the same document it is the
  segment \<^verbatim>\<open>NAD\<close> and then the segment \<^verbatim>\<open>BGM\<close>.
\<close>

theorem extract_all_insertion_order:
  "map segment (fst (projr (extract_all [\<lparr>extract_text = None, extract_tables =
       [[[Some ''Segment: NAD''], [Some ''Segment: BGM''], [], [], []]]\<rparr>] init_extractor)))
     = [''NAD'', ''BGM'']
   \<and> \<not> sorted_wrt (<) [''NAD'', ''BGM'']"
  by code_simp

end
